theory Spec2Isabelle
  imports Main "HOL-Library.Sublist"
begin

section \<open>Strings\<close>

text \<open>
  A Go string is a sequence of bytes; \<^typ>\<open>string\<close> is a list of 8-bit characters, so
  \<^term>\<open>length\<close> is Go's \<open>len\<close>. The functions of package \<open>strings\<close> that the program
  calls on fixed ASCII separators work on bytes and are written out here. \<open>strings.Replace\<close>
  is always called with \<open>n = -1\<close> and a non-empty \<open>old\<close>: it replaces the leftmost
  occurrence and goes on behind it.
\<close>

definition strings_HasPrefix :: "string \<Rightarrow> string \<Rightarrow> bool" where
  "strings_HasPrefix s pre \<longleftrightarrow> length pre \<le> length s \<and> take (length pre) s = pre"

definition strings_HasSuffix :: "string \<Rightarrow> string \<Rightarrow> bool" where
  "strings_HasSuffix s suf \<longleftrightarrow>
     length suf \<le> length s \<and> drop (length s - length suf) s = suf"

definition strings_IndexRune :: "string \<Rightarrow> char \<Rightarrow> int" where
  "strings_IndexRune s c =
     (if c \<in> set s then int (length (takeWhile (\<lambda>x. x \<noteq> c) s)) else - 1)"

fun strings_Replace :: "string \<Rightarrow> string \<Rightarrow> string \<Rightarrow> string" where
  "strings_Replace [] old new = []"
| "strings_Replace (c # cs) old new =
     (if old \<noteq> [] \<and> prefix old (c # cs)
      then new @ strings_Replace (drop (length old - 1) cs) old new
      else c # strings_Replace cs old new)"

fun strings_Split :: "string \<Rightarrow> char \<Rightarrow> string list" where
  "strings_Split [] sep = [[]]"
| "strings_Split (c # cs) sep =
     (if c = sep then [] # strings_Split cs sep
      else (case strings_Split cs sep of
              [] \<Rightarrow> [[c]]
            | l # ls \<Rightarrow> (c # l) # ls))"

text \<open>\<open>strings.SplitN(line, sep, 2)\<close>: one part when the separator is absent, else the text
  before its first occurrence and the whole rest.\<close>

definition strings_SplitN2 :: "string \<Rightarrow> char \<Rightarrow> string list" where
  "strings_SplitN2 s sep =
     (if sep \<in> set s
      then [takeWhile (\<lambda>x. x \<noteq> sep) s, tl (dropWhile (\<lambda>x. x \<noteq> sep) s)]
      else [s])"

definition replaceSuffix :: "string \<Rightarrow> string \<Rightarrow> string \<Rightarrow> string" where
  "replaceSuffix str suf replacement =
     (if strings_HasSuffix str suf
      then take (length str - length suf) str @ replacement
      else str)"

definition isPattern :: "string \<Rightarrow> bool" where
  "isPattern p \<longleftrightarrow> strings_IndexRune p CHR ''*'' > - 1 \<or> strings_HasSuffix p ''$''"

section \<open>UTF-8 decoding\<close>

text \<open>
  \<open>utf8.DecodeRuneInString\<close> returns the first code point of a string and its width in
  bytes, \<open>(RuneError, 1)\<close> for a byte that starts no well-formed sequence and
  \<open>(RuneError, 0)\<close> for the empty string. The second byte's range depends on the first
  (no overlong forms, no surrogates, nothing above U+10FFFF).
\<close>

definition RuneError :: nat where
  "RuneError = 0xFFFD"

definition cont_byte :: "char \<Rightarrow> bool" where
  "cont_byte c \<longleftrightarrow> 0x80 \<le> (of_char c :: nat) \<and> (of_char c :: nat) \<le> 0xBF"

definition second_byte_ok :: "char \<Rightarrow> char \<Rightarrow> bool" where
  "second_byte_ok c0 c1 =
     (let b0 = (of_char c0 :: nat); b1 = (of_char c1 :: nat) in
      if b0 = 0xE0 then 0xA0 \<le> b1 \<and> b1 \<le> 0xBF
      else if b0 = 0xED then 0x80 \<le> b1 \<and> b1 \<le> 0x9F
      else if b0 = 0xF0 then 0x90 \<le> b1 \<and> b1 \<le> 0xBF
      else if b0 = 0xF4 then 0x80 \<le> b1 \<and> b1 \<le> 0x8F
      else 0x80 \<le> b1 \<and> b1 \<le> 0xBF)"

definition seq_len :: "char \<Rightarrow> nat" where
  "seq_len c0 =
     (let b0 = (of_char c0 :: nat) in
      if b0 < 0x80 then 1
      else if 0xC2 \<le> b0 \<and> b0 \<le> 0xDF then 2
      else if 0xE0 \<le> b0 \<and> b0 \<le> 0xEF then 3
      else if 0xF0 \<le> b0 \<and> b0 \<le> 0xF4 then 4
      else 0)"

fun utf8_DecodeRuneInString :: "string \<Rightarrow> nat \<times> nat" where
  "utf8_DecodeRuneInString [] = (RuneError, 0)"
| "utf8_DecodeRuneInString (c0 # cs) =
     (if seq_len c0 = 1 then (of_char c0, 1)
      else if seq_len c0 = 0 then (RuneError, 1)
      else (case cs of
          [] \<Rightarrow> (RuneError, 1)
        | c1 # cs1 \<Rightarrow>
            if \<not> second_byte_ok c0 c1 then (RuneError, 1)
            else if seq_len c0 = 2
              then ((of_char c0 - 0xC0) * 64 + (of_char c1 - 0x80), 2)
            else (case cs1 of
                [] \<Rightarrow> (RuneError, 1)
              | c2 # cs2 \<Rightarrow>
                  if \<not> cont_byte c2 then (RuneError, 1)
                  else if seq_len c0 = 3
                    then ((of_char c0 - 0xE0) * 4096 + (of_char c1 - 0x80) * 64
                           + (of_char c2 - 0x80), 3)
                  else (case cs2 of
                      [] \<Rightarrow> (RuneError, 1)
                    | c3 # cs3 \<Rightarrow>
                        if \<not> cont_byte c3 then (RuneError, 1)
                        else ((of_char c0 - 0xF0) * 262144 + (of_char c1 - 0x80) * 4096
                               + (of_char c2 - 0x80) * 64 + (of_char c3 - 0x80), 4)))))"

text \<open>The code points of a text as the matcher reads it: a byte that does not decode is
  read as \<open>RuneError\<close> and one byte is skipped.\<close>

fun runes :: "string \<Rightarrow> nat list" where
  "runes [] = []"
| "runes (c # cs) =
     fst (utf8_DecodeRuneInString (c # cs))
       # runes (drop (snd (utf8_DecodeRuneInString (c # cs)) - 1) cs)"

section \<open>The standard library as a parameter\<close>

text \<open>
  \<open>url.Parse\<close>, \<open>idna.ToASCII\<close>, \<open>strconv.ParseFloat\<close>, the conversion
  \<open>time.Duration(delay * float64(time.Second))\<close>, \<open>strings.ToLower\<close> and
  \<open>strings.TrimSpace\<close> (both follow the Unicode tables) are arguments of the model: a
  theorem about \<open>L\<close> holds whatever these functions compute. \<open>'f\<close> stands for
  \<open>float64\<close>, and \<open>None\<close> for a call that returns an error. Of a parsed URL the
  program reads \<open>Scheme\<close>, \<open>Host\<close> and \<open>Path\<close>.

  The size limit of \<open>regexp.Compile\<close> is an argument too. The parser of the library
  counts the nodes it allocates and the instructions the expression will need, and gives
  up with \<open>expression too large\<close> (\<open>ErrLarge\<close>) beyond its bounds; neither the unit
  of the count nor the bounds are fixed by the language, and older releases have none.
  \<open>regexp_ErrLarge L s\<close> says that \<open>regexp.Compile(s)\<close> fails with that error.
\<close>

record URL =
  Scheme :: string
  Host :: string
  Path :: string

record 'f stdlib =
  url_Parse :: "string \<Rightarrow> URL option"
  idna_ToASCII :: "string \<Rightarrow> string option"
  strconv_ParseFloat :: "string \<Rightarrow> 'f option"
  time_Duration :: "'f \<Rightarrow> int"
  strings_ToLower :: "string \<Rightarrow> string"
  strings_TrimSpace :: "string \<Rightarrow> string"
  regexp_ErrLarge :: "string \<Rightarrow> bool"

datatype error = ParseError | ToASCIIError | InvalidHostError

definition parseAndNormalizeURL :: "'f stdlib \<Rightarrow> string \<Rightarrow> error + URL" where
  "parseAndNormalizeURL L urlStr =
     (case url_Parse L urlStr of
        None \<Rightarrow> Inl ParseError
      | Some u \<Rightarrow>
          (case idna_ToASCII L (Host u) of
             None \<Rightarrow> Inl ToASCIIError
           | Some h \<Rightarrow> Inr (u\<lparr>Host := h\<rparr>)))"

definition normaliseUserAgent :: "'f stdlib \<Rightarrow> string \<Rightarrow> string" where
  "normaliseUserAgent L userAgent =
     (let index = strings_IndexRune userAgent CHR ''/'';
          ua = (if index > - 1 then take (nat index) userAgent else userAgent)
      in strings_ToLower L (strings_TrimSpace L ua))"

section \<open>Regular expressions\<close>

text \<open>
  Package \<open>regexp\<close> is modelled on the syntax that \<open>compilePattern\<close> writes: literal
  characters, a backslash before a punctuation character, the group \<open>(?:.*)\<close>, and
  \<open>$\<close>. A compiled expression is the list of its items. The parser
  (\<open>syntax_Parse\<close>) reads the pattern code point by code point and reports
  \<open>invalid UTF-8\<close> at a byte that does not decode; any other syntax is answered with
  \<open>ErrUnmodelled\<close> (lemma \<open>syntax_Parse_src\<close> shows that \<open>compilePattern\<close> never
  gets there). \<open>regexp.Compile\<close> fails with \<open>ErrLarge\<close> on the expressions that the
  library refuses for their size, and otherwise answers what the parser answers.

  \<open>MatchString\<close> looks for a match starting anywhere in the text (the expression is not
  anchored at the start). Without flags \<open>.\<close> matches any code point but the line feed,
  and \<open>$\<close> matches at the end of the text only.
\<close>

datatype re_item = RLit nat | RAnyStar | REndText

type_synonym regexp = "re_item list"

datatype re_error = ErrInvalidUTF8 | ErrTrailingBackslash | ErrUnmodelled | ErrLarge

definition isalnum :: "char \<Rightarrow> bool" where
  "isalnum c \<longleftrightarrow>
     (let b = (of_char c :: nat) in
      (0x30 \<le> b \<and> b \<le> 0x39) \<or> (0x41 \<le> b \<and> b \<le> 0x5A) \<or> (0x61 \<le> b \<and> b \<le> 0x7A))"

definition special :: "char \<Rightarrow> bool" where
  "special c \<longleftrightarrow> c \<in> set (CHR 0x5C # ''.+*?()|[]{}^$'')"

definition regexp_QuoteMeta :: "string \<Rightarrow> string" where
  "regexp_QuoteMeta s = concat (map (\<lambda>c. if special c then [CHR 0x5C, c] else [c]) s)"

definition re_cons :: "re_item \<Rightarrow> re_error + regexp \<Rightarrow> re_error + regexp" where
  "re_cons i r = (case r of Inl e \<Rightarrow> Inl e | Inr is \<Rightarrow> Inr (i # is))"

function syntax_Parse :: "string \<Rightarrow> re_error + regexp" where
  "syntax_Parse [] = Inr []"
| "syntax_Parse (c # cs) =
     (if c = CHR ''('' then
        (if prefix ''?:.*)'' cs then re_cons RAnyStar (syntax_Parse (drop 5 cs))
         else Inl ErrUnmodelled)
      else if c = CHR ''$'' then re_cons REndText (syntax_Parse cs)
      else if c = CHR 0x5C then
        (case cs of
           [] \<Rightarrow> Inl ErrTrailingBackslash
         | e # cs' \<Rightarrow>
             if (of_char e :: nat) < 0x80 \<and> \<not> isalnum e
             then re_cons (RLit (of_char e)) (syntax_Parse cs')
             else Inl ErrUnmodelled)
      else if special c then Inl ErrUnmodelled
      else
        (let (r, size) = utf8_DecodeRuneInString (c # cs) in
         if r = RuneError \<and> size = 1 then Inl ErrInvalidUTF8
         else re_cons (RLit r) (syntax_Parse (drop (size - 1) cs))))"
  by pat_completeness auto
termination
  by (relation "measure length") auto

definition regexp_Compile :: "'f stdlib \<Rightarrow> string \<Rightarrow> re_error + regexp" where
  "regexp_Compile L s = (if regexp_ErrLarge L s then Inl ErrLarge else syntax_Parse s)"

fun match_here :: "regexp \<Rightarrow> nat list \<Rightarrow> bool" where
  "match_here [] t = True"
| "match_here (RLit r # is) [] = False"
| "match_here (RLit r # is) (x # t) = (x = r \<and> match_here is t)"
| "match_here (REndText # is) t = (t = [] \<and> match_here is t)"
| "match_here (RAnyStar # is) [] = match_here is []"
| "match_here (RAnyStar # is) (x # t) =
     (match_here is (x # t) \<or> (x \<noteq> 0x0A \<and> match_here (RAnyStar # is) t))"

fun match_from :: "regexp \<Rightarrow> nat list \<Rightarrow> bool" where
  "match_from re [] = match_here re []"
| "match_from re (x # t) = (match_here re (x # t) \<or> match_from re t)"

definition regexp_MatchString :: "regexp \<Rightarrow> string \<Rightarrow> bool" where
  "regexp_MatchString re s = match_from re (runes s)"

section \<open>Rules and groups\<close>

text \<open>A rule is a literal prefix (\<open>pattern\<close> is nil) or a compiled pattern.\<close>

record rule =
  isAllowed :: bool
  path :: string
  pattern :: "regexp option"

record group =
  rules :: "rule list"
  crawlDelay :: int

definition compilePattern :: "'f stdlib \<Rightarrow> string \<Rightarrow> re_error + regexp" where
  "compilePattern L p0 =
     (let p1 = regexp_QuoteMeta p0;
          p2 = strings_Replace p1 [CHR 0x5C, CHR ''*''] ''(?:.*)'';
          p3 = replaceSuffix p2 [CHR 0x5C, CHR ''$''] ''$'';
          p4 = replaceSuffix p3 ''%24'' [CHR 0x5C, CHR ''$''];
          p5 = replaceSuffix p4 ''%2524'' ''%24'';
          p6 = strings_Replace p5 ''%2A'' [CHR 0x5C, CHR ''*'']
      in regexp_Compile L p6)"

text \<open>
  The loop of \<open>group.isAllowed\<close>, with \<open>result\<close> and \<open>resultPathLength\<close> as accumulators.
  A matching pattern returns at once; a literal rule shorter than the best so far is
  skipped.
\<close>

fun isAllowed_loop :: "rule list \<Rightarrow> string \<Rightarrow> bool \<Rightarrow> nat \<Rightarrow> bool" where
  "isAllowed_loop [] p result resultPathLength = result"
| "isAllowed_loop (r # rs) p result resultPathLength =
     (case pattern r of
        Some re \<Rightarrow>
          if regexp_MatchString re p then isAllowed r
          else isAllowed_loop rs p result resultPathLength
      | None \<Rightarrow>
          if resultPathLength > length (path r)
            then isAllowed_loop rs p result resultPathLength
          else if strings_HasPrefix p (path r)
            then isAllowed_loop rs p (isAllowed r) (length (path r))
          else isAllowed_loop rs p result resultPathLength)"

definition group_isAllowed :: "group \<Rightarrow> string \<Rightarrow> string \<Rightarrow> bool" where
  "group_isAllowed g userAgent p = isAllowed_loop (rules g) p True 0"

section \<open>Percent-decoding\<close>

text \<open>\<open>url.PathUnescape\<close>: every \<open>%\<close> must be followed by two hexadecimal digits, which
  give one byte; any other byte stands for itself (\<open>+\<close> too).\<close>

definition ishex :: "char \<Rightarrow> bool" where
  "ishex c \<longleftrightarrow>
     (let b = (of_char c :: nat) in
      (0x30 \<le> b \<and> b \<le> 0x39) \<or> (0x61 \<le> b \<and> b \<le> 0x66) \<or> (0x41 \<le> b \<and> b \<le> 0x46))"

definition unhex :: "char \<Rightarrow> nat" where
  "unhex c =
     (let b = (of_char c :: nat) in
      if 0x30 \<le> b \<and> b \<le> 0x39 then b - 0x30
      else if 0x61 \<le> b \<and> b \<le> 0x66 then b - 0x61 + 10
      else if 0x41 \<le> b \<and> b \<le> 0x46 then b - 0x41 + 10
      else 0)"

fun url_PathUnescape :: "string \<Rightarrow> string option" where
  "url_PathUnescape [] = Some []"
| "url_PathUnescape (c # cs) =
     (if c = CHR ''%'' then
        (case cs of
           h1 # h2 # rest \<Rightarrow>
             if ishex h1 \<and> ishex h2
             then map_option ((#) (char_of (unhex h1 * 16 + unhex h2))) (url_PathUnescape rest)
             else None
         | _ \<Rightarrow> None)
      else map_option ((#) c) (url_PathUnescape cs))"

section \<open>The parsed file\<close>

record RobotsTxt =
  url :: URL
  groups :: "string \<rightharpoonup> group"
  sitemaps :: "string list"
  host :: string

text \<open>
  \<open>addPathRule\<close> and \<open>addCrawlDelay\<close> change the file in place and return an error; the
  model returns the new file and the error. The group is entered in the map before
  anything else, so it exists afterwards also when no rule is stored.
\<close>

definition get_group :: "RobotsTxt \<Rightarrow> string \<Rightarrow> group" where
  "get_group r userAgent =
     (case groups r userAgent of Some g \<Rightarrow> g | None \<Rightarrow> \<lparr>rules = [], crawlDelay = 0\<rparr>)"

definition put_group :: "RobotsTxt \<Rightarrow> string \<Rightarrow> group \<Rightarrow> RobotsTxt" where
  "put_group r userAgent g = r\<lparr>groups := (groups r)(userAgent \<mapsto> g)\<rparr>"

definition addPathRule ::
  "'f stdlib \<Rightarrow> RobotsTxt \<Rightarrow> string \<Rightarrow> string \<Rightarrow> bool \<Rightarrow> RobotsTxt \<times> re_error option" where
  "addPathRule L r userAgent p0 allowed =
     (let g = get_group r userAgent;
          isPat = isPattern p0;
          p1 = (if isPat then replaceSuffix p0 ''%24'' ''%2524'' else p0);
          p2 = strings_Replace p1 ''%2A'' ''%252A'';
          p3 = (case url_PathUnescape p2 of
                  Some unescapedPath \<Rightarrow> unescapedPath
                | None \<Rightarrow> strings_Replace p2 ''%252A'' ''%2A'')
      in if isPat then
           (case compilePattern L p3 of
              Inl err \<Rightarrow> (put_group r userAgent g, Some err)
            | Inr regexPattern \<Rightarrow>
                (put_group r userAgent
                   (g\<lparr>rules := rules g
                       @ [\<lparr>isAllowed = allowed, path = [], pattern = Some regexPattern\<rparr>]\<rparr>),
                 None))
         else
           (put_group r userAgent
              (g\<lparr>rules := rules g @ [\<lparr>isAllowed = allowed, path = p3, pattern = None\<rparr>]\<rparr>),
            None))"

definition addCrawlDelay :: "'f stdlib \<Rightarrow> RobotsTxt \<Rightarrow> string \<Rightarrow> string \<Rightarrow> RobotsTxt" where
  "addCrawlDelay L r userAgent v =
     (let g = get_group r userAgent in
      case strconv_ParseFloat L v of
        Some delay \<Rightarrow> put_group r userAgent (g\<lparr>crawlDelay := time_Duration L delay\<rparr>)
      | None \<Rightarrow> put_group r userAgent g)"

section \<open>Parse\<close>

text \<open>The variables of the loop in \<open>Parse\<close>, and one turn of the loop.\<close>

record parse_state =
  robotsTxt :: RobotsTxt
  userAgents :: "string list"
  isNoneUserAgentState :: bool

definition parse_line :: "'f stdlib \<Rightarrow> parse_state \<Rightarrow> string \<Rightarrow> parse_state" where
  "parse_line L st line =
     (let parts = strings_SplitN2 line CHR '':'' in
      if length parts > 1 then
        (let k = strings_TrimSpace L (parts ! 0);
             val = strings_TrimSpace L (parts ! 1);
             key = strings_ToLower L k;
             st1 =
               (if key = ''user-agent'' then
                  st\<lparr>userAgents :=
                       (if isNoneUserAgentState st then [] else userAgents st)
                         @ [normaliseUserAgent L val]\<rparr>
                else if key = ''allow'' then
                  st\<lparr>robotsTxt :=
                       foldl (\<lambda>r ua. fst (addPathRule L r ua val True)) (robotsTxt st)
                         (userAgents st)\<rparr>
                else if key = ''disallow'' then
                  st\<lparr>robotsTxt :=
                       foldl (\<lambda>r ua. fst (addPathRule L r ua val False)) (robotsTxt st)
                         (userAgents st)\<rparr>
                else if key = ''crawl-delay'' then
                  st\<lparr>robotsTxt :=
                       foldl (\<lambda>r ua. addCrawlDelay L r ua val) (robotsTxt st) (userAgents st)\<rparr>
                else if key = ''sitemap'' then
                  (if val \<noteq> [] then
                     st\<lparr>robotsTxt := (robotsTxt st)\<lparr>sitemaps := sitemaps (robotsTxt st) @ [val]\<rparr>\<rparr>
                   else st)
                else if key = ''host'' then
                  (if val \<noteq> [] then st\<lparr>robotsTxt := (robotsTxt st)\<lparr>host := val\<rparr>\<rparr> else st)
                else st)
         in st1\<lparr>isNoneUserAgentState := (key \<noteq> ''user-agent'')\<rparr>)
      else st)"

definition parse_init :: "URL \<Rightarrow> parse_state" where
  "parse_init u =
     \<lparr>robotsTxt = \<lparr>url = u, groups = Map.empty, sitemaps = [], host = []\<rparr>,
      userAgents = [], isNoneUserAgentState = False\<rparr>"

definition parse_lines :: "'f stdlib \<Rightarrow> URL \<Rightarrow> string list \<Rightarrow> RobotsTxt" where
  "parse_lines L u ls = robotsTxt (foldl (parse_line L) (parse_init u) ls)"

definition Parse :: "'f stdlib \<Rightarrow> string \<Rightarrow> string \<Rightarrow> error + RobotsTxt" where
  "Parse L contents urlStr =
     (case parseAndNormalizeURL L urlStr of
        Inl err \<Rightarrow> Inl err
      | Inr u \<Rightarrow> Inr (parse_lines L u (strings_Split contents CHR 0x0A)))"

section \<open>Queries\<close>

definition CrawlDelay :: "'f stdlib \<Rightarrow> RobotsTxt \<Rightarrow> string \<Rightarrow> int" where
  "CrawlDelay L r userAgent =
     (case groups r (normaliseUserAgent L userAgent) of
        Some g \<Rightarrow> crawlDelay g
      | None \<Rightarrow> (case groups r ''*'' of Some g \<Rightarrow> crawlDelay g | None \<Rightarrow> 0))"

definition IsAllowed :: "'f stdlib \<Rightarrow> RobotsTxt \<Rightarrow> string \<Rightarrow> string \<Rightarrow> error + bool" where
  "IsAllowed L r userAgent urlStr =
     (case parseAndNormalizeURL L urlStr of
        Inl err \<Rightarrow> Inl err
      | Inr u \<Rightarrow>
          if Scheme u \<noteq> Scheme (url r) \<or> Host u \<noteq> Host (url r) then Inl InvalidHostError
          else Inr (case groups r (normaliseUserAgent L userAgent) of
                      Some g \<Rightarrow> group_isAllowed g userAgent (Path u)
                    | None \<Rightarrow>
                        (case groups r ''*'' of
                           Some g \<Rightarrow> group_isAllowed g userAgent (Path u)
                         | None \<Rightarrow> True)))"

section \<open>Notions used in the statements\<close>

text \<open>A pattern rule matches a path when its compiled expression does; a literal rule
  matches when its path is a prefix of the queried path.\<close>

definition pattern_matches :: "rule \<Rightarrow> string \<Rightarrow> bool" where
  "pattern_matches r p =
     (case pattern r of Some re \<Rightarrow> regexp_MatchString re p | None \<Rightarrow> False)"

definition literal_matches :: "rule \<Rightarrow> string \<Rightarrow> bool" where
  "literal_matches r p \<longleftrightarrow> pattern r = None \<and> strings_HasPrefix p (path r)"

text \<open>Rule number \<open>i\<close> is the longest matching literal rule, and the last one of that
  length: no matching literal rule is longer, and every later one is shorter.\<close>

definition decides :: "rule list \<Rightarrow> string \<Rightarrow> nat \<Rightarrow> bool" where
  "decides rs p i \<longleftrightarrow>
     i < length rs \<and> literal_matches (rs ! i) p \<and>
     (\<forall>j < length rs. literal_matches (rs ! j) p \<longrightarrow>
        length (path (rs ! j)) \<le> length (path (rs ! i)) \<and>
        (i < j \<longrightarrow> length (path (rs ! j)) < length (path (rs ! i))))"

section \<open>A sample of the standard library\<close>

text \<open>
  The examples below need values for the library functions. \<open>sample_lib\<close> agrees with
  the Go functions on the arguments the examples pass: ASCII text for \<open>ToLower\<close> and
  \<open>TrimSpace\<close>; URLs of the shape \<open>http://host/path\<close> made of letters, digits and
  \<open>- . _ / * $\<close>, without escapes, port, query or fragment, on which \<open>url.Parse\<close>
  leaves host and path as they are written; hosts of such characters without an \<open>xn--\<close>
  label, which \<open>idna.ToASCII\<close> returns unchanged; integer literals of at most six digits
  for \<open>strconv.ParseFloat\<close>, whose product with \<open>float64(time.Second)\<close> is exact. On any
  other argument it answers \<open>None\<close> and says nothing about the library. Of the regular
  expressions that \<open>compilePattern\<close> writes, those of at most 3355443 bytes are within
  the size limit of \<open>regexp.Compile\<close> (its bound is 3355443 instructions, and such an
  expression needs at most one for each of its bytes); the sample refuses every longer
  expression, which says nothing about the library either.
\<close>

definition ascii_space :: "char \<Rightarrow> bool" where
  "ascii_space c \<longleftrightarrow> c \<in> set [CHR 0x09, CHR 0x0A, CHR 0x0B, CHR 0x0C, CHR 0x0D, CHR '' '']"

definition ascii_TrimSpace :: "string \<Rightarrow> string" where
  "ascii_TrimSpace s = rev (dropWhile ascii_space (rev (dropWhile ascii_space s)))"

definition ascii_ToLower :: "string \<Rightarrow> string" where
  "ascii_ToLower s =
     map (\<lambda>c. if 0x41 \<le> (of_char c :: nat) \<and> (of_char c :: nat) \<le> 0x5A
               then char_of ((of_char c :: nat) + 32) else c) s"

definition plain_char :: "char \<Rightarrow> bool" where
  "plain_char c \<longleftrightarrow> isalnum c \<or> c \<in> set ''-._''"

fun has_ace :: "string \<Rightarrow> bool" where
  "has_ace [] = False"
| "has_ace (c # cs) = (prefix ''xn--'' (c # cs) \<or> has_ace cs)"

definition http_Parse :: "string \<Rightarrow> URL option" where
  "http_Parse s =
     (if prefix ''http://'' s then
        (let rest = drop 7 s;
             h = takeWhile (\<lambda>c. c \<noteq> CHR ''/'') rest;
             p = dropWhile (\<lambda>c. c \<noteq> CHR ''/'') rest
         in if h \<noteq> [] \<and> list_all plain_char h
               \<and> list_all (\<lambda>c. plain_char c \<or> c \<in> set ''/*$'') p
            then Some \<lparr>Scheme = ''http'', Host = h, Path = p\<rparr>
            else None)
      else None)"

definition ascii_ToASCII :: "string \<Rightarrow> string option" where
  "ascii_ToASCII s = (if list_all plain_char s \<and> \<not> has_ace s then Some s else None)"

definition is_digit :: "char \<Rightarrow> bool" where
  "is_digit c \<longleftrightarrow> 0x30 \<le> (of_char c :: nat) \<and> (of_char c :: nat) \<le> 0x39"

definition int_ParseFloat :: "string \<Rightarrow> int option" where
  "int_ParseFloat s =
     (let ds = (if prefix ''-'' s \<or> prefix ''+'' s then tl s else s);
          n = foldl (\<lambda>a c. 10 * a + (int (of_char c) - 0x30)) 0 ds
      in if ds \<noteq> [] \<and> length ds \<le> 6 \<and> list_all is_digit ds
         then Some (if prefix ''-'' s then - n else n)
         else None)"

definition long_expression :: "string \<Rightarrow> bool" where
  "long_expression s \<longleftrightarrow> 3355443 < length s"

definition sample_lib :: "int stdlib" where
  "sample_lib =
     \<lparr>url_Parse = http_Parse, idna_ToASCII = ascii_ToASCII,
      strconv_ParseFloat = int_ParseFloat, time_Duration = (\<lambda>d. d * 1000000000),
      strings_ToLower = ascii_ToLower, strings_TrimSpace = ascii_TrimSpace,
      regexp_ErrLarge = long_expression\<rparr>"

definition example_url :: URL where
  "example_url = \<lparr>Scheme = ''http'', Host = ''www.example.com'', Path = ''/robots.txt''\<rparr>"

text \<open>A line takes part in the parse when it has a colon; its key is the trimmed,
  lower-cased text before the first colon, its value the trimmed rest.\<close>

definition has_colon :: "string \<Rightarrow> bool" where
  "has_colon l \<longleftrightarrow> CHR '':'' \<in> set l"

definition line_key :: "'f stdlib \<Rightarrow> string \<Rightarrow> string" where
  "line_key L l =
     strings_ToLower L (strings_TrimSpace L (takeWhile (\<lambda>x. x \<noteq> CHR '':'') l))"

definition line_val :: "'f stdlib \<Rightarrow> string \<Rightarrow> string" where
  "line_val L l = strings_TrimSpace L (tl (dropWhile (\<lambda>x. x \<noteq> CHR '':'') l))"

text \<open>
  A line is ignored when it has no colon or its key is none of the six directives (an
  empty key, a comment with a colon in it and an unknown directive are all of this
  kind). \<open>last_directive\<close> and \<open>first_directive\<close> are the nearest line with a colon
  before and after a place in the file, \<open>directive_lines\<close> are the lines that are not
  ignored, and \<open>join_lines\<close> is the text of a list of lines.
\<close>

definition recognised_keys :: "string list" where
  "recognised_keys = [''user-agent'', ''allow'', ''disallow'', ''crawl-delay'', ''sitemap'', ''host'']"

definition ignored_line :: "'f stdlib \<Rightarrow> string \<Rightarrow> bool" where
  "ignored_line L l \<longleftrightarrow> \<not> has_colon l \<or> line_key L l \<notin> set recognised_keys"

definition not_user_agent :: "'f stdlib \<Rightarrow> string option \<Rightarrow> bool" where
  "not_user_agent L x = (case x of None \<Rightarrow> True | Some c \<Rightarrow> line_key L c \<noteq> ''user-agent'')"

definition last_directive :: "string list \<Rightarrow> string option" where
  "last_directive ls = (case filter has_colon ls of [] \<Rightarrow> None | c # cs \<Rightarrow> Some (last (c # cs)))"

definition first_directive :: "string list \<Rightarrow> string option" where
  "first_directive ls = (case filter has_colon ls of [] \<Rightarrow> None | c # cs \<Rightarrow> Some c)"


fun join_lines :: "string list \<Rightarrow> string" where
  "join_lines [] = []"
| "join_lines [l] = l"
| "join_lines (l # m # ls) = l @ CHR 0x0A # join_lines (m # ls)"

text \<open>
  What \<open>addPathRule\<close> does to the value of a directive before it stores it
  (\<open>decode_path\<close>), and the rules it appends to the group: one rule, or none when the
  pattern does not compile.
\<close>

definition decode_path :: "string \<Rightarrow> string" where
  "decode_path p0 =
     (let p1 = (if isPattern p0 then replaceSuffix p0 ''%24'' ''%2524'' else p0);
          p2 = strings_Replace p1 ''%2A'' ''%252A''
      in case url_PathUnescape p2 of
           Some unescapedPath \<Rightarrow> unescapedPath
         | None \<Rightarrow> strings_Replace p2 ''%252A'' ''%2A'')"

definition new_rules :: "'f stdlib \<Rightarrow> string \<Rightarrow> bool \<Rightarrow> rule list" where
  "new_rules L p0 allowed =
     (if isPattern p0 then
        (case compilePattern L (decode_path p0) of
           Inl err \<Rightarrow> []
         | Inr re \<Rightarrow> [\<lparr>isAllowed = allowed, path = [], pattern = Some re\<rparr>])
      else [\<lparr>isAllowed = allowed, path = decode_path p0, pattern = None\<rparr>])"

text \<open>
  Notions for the pattern compiler. A string is valid UTF-8 when decoding it never meets
  a byte that does not decode (\<open>utf8.ValidString\<close>).
\<close>

definition non_ascii :: "char \<Rightarrow> bool" where
  "non_ascii c \<longleftrightarrow> (of_char c :: nat) \<ge> 0x80"

fun valid_utf8 :: "string \<Rightarrow> bool" where
  "valid_utf8 [] = True"
| "valid_utf8 (c # cs) =
     (\<not> (fst (utf8_DecodeRuneInString (c # cs)) = RuneError
          \<and> snd (utf8_DecodeRuneInString (c # cs)) = 1)
      \<and> valid_utf8 (drop (snd (utf8_DecodeRuneInString (c # cs)) - 1) cs))"

text \<open>
  The meaning of a decoded pattern, read off character by character: the text \<open>%2A\<close>
  is a literal asterisk, \<open>*\<close> is the wildcard, any other character stands for itself;
  at the end a \<open>$\<close> is the anchor, \<open>%24\<close> a literal \<open>$\<close> and \<open>%2524\<close> the text
  \<open>%24\<close>.
\<close>

fun lit_items :: "string \<Rightarrow> regexp" where
  "lit_items [] = []"
| "lit_items (c # cs) =
     (if prefix ''%2A'' (c # cs) then RLit 0x2A # lit_items (drop 2 cs)
      else if c = CHR ''*'' then RAnyStar # lit_items cs
      else RLit (fst (utf8_DecodeRuneInString (c # cs)))
             # lit_items (drop (snd (utf8_DecodeRuneInString (c # cs)) - 1) cs))"

definition pattern_items :: "string \<Rightarrow> regexp" where
  "pattern_items d =
     (if strings_HasSuffix d ''$'' then lit_items (take (length d - 1) d) @ [REndText]
      else if strings_HasSuffix d ''%24'' then lit_items (take (length d - 3) d) @ [RLit 0x24]
      else if strings_HasSuffix d ''%2524''
        then lit_items (take (length d - 5) d) @ [RLit 0x25, RLit 0x32, RLit 0x34]
      else lit_items d)"

text \<open>
  The text of the regular expression at the stages of \<open>compilePattern\<close>: after
  quoting and the first replacement (\<open>quoted_src\<close>), after the three suffix
  replacements (\<open>suffix_stage\<close>), and after the last replacement (\<open>literal_src\<close>,
  up to the suffix, which is one of the strings of \<open>tail_ok\<close>). \<open>pattern_src\<close> is the
  text that \<open>compilePattern\<close> hands to \<open>regexp.Compile\<close>.
\<close>

definition quote_star :: "char \<Rightarrow> string" where
  "quote_star c = (if c = CHR ''*'' then ''(?:.*)'' else if special c then [CHR 0x5C, c] else [c])"

definition quoted_src :: "string \<Rightarrow> string" where
  "quoted_src d = concat (map quote_star d)"

fun literal_src :: "string \<Rightarrow> string" where
  "literal_src [] = []"
| "literal_src (c # cs) =
     (if prefix ''%2A'' (c # cs) then [CHR 0x5C, CHR ''*''] @ literal_src (drop 2 cs)
      else quote_star c @ literal_src cs)"

definition suffix_stage :: "string \<Rightarrow> string" where
  "suffix_stage p2 =
     replaceSuffix (replaceSuffix (replaceSuffix p2 [CHR 0x5C, CHR ''$''] ''$'')
        ''%24'' [CHR 0x5C, CHR ''$'']) ''%2524'' ''%24''"

definition pattern_src :: "string \<Rightarrow> string" where
  "pattern_src p0 =
     (let p1 = regexp_QuoteMeta p0;
          p2 = strings_Replace p1 [CHR 0x5C, CHR ''*''] ''(?:.*)'';
          p3 = replaceSuffix p2 [CHR 0x5C, CHR ''$''] ''$'';
          p4 = replaceSuffix p3 ''%24'' [CHR 0x5C, CHR ''$''];
          p5 = replaceSuffix p4 ''%2524'' ''%24''
      in strings_Replace p5 ''%2A'' [CHR 0x5C, CHR ''*''])"

definition tail_ok :: "string \<Rightarrow> bool" where
  "tail_ok t \<longleftrightarrow> t = [] \<or> t = ''$'' \<or> t = [CHR 0x5C, CHR ''$''] \<or> t = ''%24''"

text \<open>Percent-decoding that leaves every \<open>%2A\<close> as it is written.\<close>

fun unescape_keep_star :: "string \<Rightarrow> string option" where
  "unescape_keep_star [] = Some []"
| "unescape_keep_star (c # cs) =
     (if prefix ''%2A'' (c # cs) then map_option ((@) ''%2A'') (unescape_keep_star (drop 2 cs))
      else if c = CHR ''%'' then
        (case cs of
           h1 # h2 # rest \<Rightarrow>
             if ishex h1 \<and> ishex h2
             then map_option ((#) (char_of (unhex h1 * 16 + unhex h2))) (unescape_keep_star rest)
             else None
         | _ \<Rightarrow> None)
      else map_option ((#) c) (unescape_keep_star cs))"

text \<open>
  Notions for the escapes of a rule. \<open>restore_star\<close> is what \<open>addPathRule\<close> stores
  when \<open>url.PathUnescape\<close> fails: the two replacements, one after the other. A text
  \<open>decodes\<close> when its percent-escapes are all well formed. \<open>decode_piece ok s\<close> is what
  becomes of a piece \<open>s\<close> of a rule: its decoding when the whole rule decodes (\<open>ok\<close>),
  and else the piece with the two replacements made. A \<open>token_start\<close> is a text that is
  empty or begins with \<open>%\<close> or \<open>$\<close>.
\<close>

definition restore_star :: "string \<Rightarrow> string" where
  "restore_star p = strings_Replace (strings_Replace p ''%2A'' ''%252A'') ''%252A'' ''%2A''"

definition decodes :: "string \<Rightarrow> bool" where
  "decodes s \<longleftrightarrow> unescape_keep_star s \<noteq> None"

definition decode_piece :: "bool \<Rightarrow> string \<Rightarrow> string" where
  "decode_piece ok s =
     (case unescape_keep_star s of
        Some d \<Rightarrow> if ok then d else restore_star s
      | None \<Rightarrow> restore_star s)"

definition token_start :: "string \<Rightarrow> bool" where
  "token_start ys \<longleftrightarrow> ys = [] \<or> hd ys = CHR ''%'' \<or> hd ys = CHR ''$''"


section \<open>The rule-matching engine\<close>

lemma loop_first_pattern:
  "List.find (\<lambda>r. pattern_matches r p) rs = Some r \<Longrightarrow>
   isAllowed_loop rs p res n = isAllowed r"
  by (induction rs arbitrary: res n)
     (auto simp: pattern_matches_def split: option.splits if_splits)

lemma decides_Cons_Suc:
  "decides (r # rs) p (Suc i) \<Longrightarrow> decides rs p i"
  unfolding decides_def by (auto simp: less_Suc_eq_0_disj)

lemma decides_Cons_0:
  "decides (r # rs) p 0 \<Longrightarrow> j < length rs \<Longrightarrow> literal_matches (rs ! j) p \<Longrightarrow>
   length (path (rs ! j)) < length (path r)"
  unfolding decides_def by fastforce

lemma decides_Cons_le:
  "decides (r # rs) p (Suc i) \<Longrightarrow> literal_matches r p \<Longrightarrow>
   length (path r) \<le> length (path (rs ! i))"
  unfolding decides_def by fastforce

lemma loop_no_literal:
  "\<forall>r \<in> set rs. \<not> pattern_matches r p \<Longrightarrow>
   \<forall>r \<in> set rs. literal_matches r p \<longrightarrow> length (path r) < n \<Longrightarrow>
   isAllowed_loop rs p res n = res"
  by (induction rs arbitrary: res n)
     (auto simp: pattern_matches_def literal_matches_def split: option.splits)

lemma loop_decides:
  "\<forall>r \<in> set rs. \<not> pattern_matches r p \<Longrightarrow> decides rs p i \<Longrightarrow>
   n \<le> length (path (rs ! i)) \<Longrightarrow>
   isAllowed_loop rs p res n = isAllowed (rs ! i)"
proof (induction rs arbitrary: res n i)
  case Nil
  then show ?case by (simp add: decides_def)
next
  case (Cons r rs)
  have nopat: "\<forall>r \<in> set rs. \<not> pattern_matches r p" and nor: "\<not> pattern_matches r p"
    using Cons.prems(1) by auto
  show ?case
  proof (cases i)
    case 0
    have lm: "literal_matches r p" using Cons.prems(2) 0 by (simp add: decides_def)
    have later: "\<forall>x \<in> set rs. literal_matches x p \<longrightarrow> length (path x) < length (path r)"
      using decides_Cons_0[of r rs p] Cons.prems(2) 0 by (auto simp: in_set_conv_nth)
    have "isAllowed_loop (r # rs) p res n = isAllowed_loop rs p (isAllowed r) (length (path r))"
      using lm Cons.prems(3) 0 by (auto simp: literal_matches_def)
    also have "\<dots> = isAllowed r"
      by (rule loop_no_literal[OF nopat later])
    finally show ?thesis using 0 by simp
  next
    case (Suc k)
    have dk: "decides rs p k" using Cons.prems(2) Suc decides_Cons_Suc by blast
    have nk: "n \<le> length (path (rs ! k))" using Cons.prems(3) Suc by simp
    show ?thesis
    proof (cases "literal_matches r p \<and> n \<le> length (path r)")
      case True
      then have le: "length (path r) \<le> length (path (rs ! k))"
        using decides_Cons_le Cons.prems(2) Suc by blast
      have "isAllowed_loop (r # rs) p res n = isAllowed_loop rs p (isAllowed r) (length (path r))"
        using True by (auto simp: literal_matches_def)
      also have "\<dots> = isAllowed (rs ! k)"
        by (rule Cons.IH[OF nopat dk le])
      finally show ?thesis using Suc by simp
    next
      case False
      then have "isAllowed_loop (r # rs) p res n = isAllowed_loop rs p res n"
        using nor by (auto simp: literal_matches_def pattern_matches_def split: option.splits)
      also have "\<dots> = isAllowed (rs ! k)"
        by (rule Cons.IH[OF nopat dk nk])
      finally show ?thesis using Suc by simp
    qed
  qed
qed

lemma decides_exists:
  "\<exists>r \<in> set rs. literal_matches r p \<Longrightarrow> \<exists>i. decides rs p i"
proof (induction rs)
  case Nil
  then show ?case by simp
next
  case (Cons r rs)
  show ?case
  proof (cases "\<exists>x \<in> set rs. literal_matches x p")
    case True
    then obtain i where d: "decides rs p i" using Cons.IH by blast
    show ?thesis
    proof (cases "literal_matches r p \<and> length (path (rs ! i)) < length (path r)")
      case True
      then have "decides (r # rs) p 0"
        using d unfolding decides_def
        by (auto simp: less_Suc_eq_0_disj)
      then show ?thesis by blast
    next
      case False
      then have "decides (r # rs) p (Suc i)"
        using d unfolding decides_def
        by (auto simp: less_Suc_eq_0_disj)
      then show ?thesis by blast
    qed
  next
    case False
    then have lm: "literal_matches r p" using Cons.prems by auto
    have "decides (r # rs) p 0"
      using lm False unfolding decides_def
      by (auto simp: less_Suc_eq_0_disj)
    then show ?thesis by blast
  qed
qed

text \<open>
  Claim C1. Whenever some pattern rule of a rule set matches the path, \<open>isAllowed\<close>
  returns the permission of the first rule of the list whose compiled pattern matches,
  whatever literal rules stand before or after it.
\<close>

theorem first_matching_pattern_decides:
  assumes "List.find (\<lambda>r. pattern_matches r p) (rules g) = Some r"
  shows "group_isAllowed g userAgent p = isAllowed r"
  using assms unfolding group_isAllowed_def by (rule loop_first_pattern)

text \<open>An instance: a literal rule before the pattern, and a second pattern and a longer
  literal rule, both matching, behind it.\<close>

theorem first_matching_pattern_decides_witness:
  "List.find (\<lambda>r. pattern_matches r ''/a/b/c'')
     [\<lparr>isAllowed = False, path = ''/a'', pattern = None\<rparr>,
      \<lparr>isAllowed = True, path = [], pattern = Some [RLit 47, RLit 97, RAnyStar]\<rparr>,
      \<lparr>isAllowed = False, path = [], pattern = Some [RLit 47, RAnyStar, RLit 99, REndText]\<rparr>,
      \<lparr>isAllowed = False, path = ''/a/b/c'', pattern = None\<rparr>]
   = Some \<lparr>isAllowed = True, path = [], pattern = Some [RLit 47, RLit 97, RAnyStar]\<rparr>
   \<and> group_isAllowed
     \<lparr>rules =
        [\<lparr>isAllowed = False, path = ''/a'', pattern = None\<rparr>,
         \<lparr>isAllowed = True, path = [], pattern = Some [RLit 47, RLit 97, RAnyStar]\<rparr>,
         \<lparr>isAllowed = False, path = [], pattern = Some [RLit 47, RAnyStar, RLit 99, REndText]\<rparr>,
         \<lparr>isAllowed = False, path = ''/a/b/c'', pattern = None\<rparr>],
      crawlDelay = 0\<rparr> ''bot'' ''/a/b/c'' = True"
proof -
  have f: "List.find (\<lambda>r. pattern_matches r ''/a/b/c'')
     (rules \<lparr>rules = [\<lparr>isAllowed = False, path = ''/a'', pattern = None\<rparr>,
      \<lparr>isAllowed = True, path = [], pattern = Some [RLit 47, RLit 97, RAnyStar]\<rparr>,
      \<lparr>isAllowed = False, path = [], pattern = Some [RLit 47, RAnyStar, RLit 99, REndText]\<rparr>,
      \<lparr>isAllowed = False, path = ''/a/b/c'', pattern = None\<rparr>], crawlDelay = 0\<rparr>)
   = Some \<lparr>isAllowed = True, path = [], pattern = Some [RLit 47, RLit 97, RAnyStar]\<rparr>"
    by (simp add: pattern_matches_def regexp_MatchString_def seq_len_def)
  show ?thesis
    using f first_matching_pattern_decides [OF f, of "''bot''"] by simp
qed

text \<open>
  Claim C2. When no pattern rule matches the path, \<open>isAllowed\<close> returns the permission of
  the longest matching literal rule, the last one among those of the greatest length
  (such a rule exists as soon as a literal rule matches), and \<open>true\<close> when no rule
  matches.
\<close>

theorem longest_literal_prefix_decides:
  assumes "\<forall>r \<in> set (rules g). \<not> pattern_matches r p"
  shows "(decides (rules g) p i \<longrightarrow> group_isAllowed g userAgent p = isAllowed (rules g ! i))
       \<and> ((\<exists>r \<in> set (rules g). literal_matches r p) \<longrightarrow> (\<exists>k. decides (rules g) p k))
       \<and> ((\<forall>r \<in> set (rules g). \<not> literal_matches r p) \<longrightarrow> group_isAllowed g userAgent p = True)"
proof (intro conjI impI)
  assume "decides (rules g) p i"
  then show "group_isAllowed g userAgent p = isAllowed (rules g ! i)"
    unfolding group_isAllowed_def using loop_decides[OF assms] by simp
next
  assume "\<exists>r \<in> set (rules g). literal_matches r p"
  then show "\<exists>k. decides (rules g) p k" by (rule decides_exists)
next
  assume "\<forall>r \<in> set (rules g). \<not> literal_matches r p"
  then show "group_isAllowed g userAgent p = True"
    unfolding group_isAllowed_def by (intro loop_no_literal[OF assms]) simp
qed

text \<open>An instance: two matching rules of length 2, the later one forbids; a pattern that
  does not match stands between them.\<close>

theorem longest_literal_prefix_decides_witness:
  "List.find (\<lambda>r. pattern_matches r ''/a/x'')
        [\<lparr>isAllowed = False, path = ''/'', pattern = None\<rparr>,
         \<lparr>isAllowed = True, path = ''/a'', pattern = None\<rparr>,
         \<lparr>isAllowed = True, path = [], pattern = Some [RLit 47, RLit 122, REndText]\<rparr>,
         \<lparr>isAllowed = False, path = ''/a'', pattern = None\<rparr>,
         \<lparr>isAllowed = True, path = ''/b'', pattern = None\<rparr>] = None
   \<and> decides [\<lparr>isAllowed = False, path = ''/'', pattern = None\<rparr>,
         \<lparr>isAllowed = True, path = ''/a'', pattern = None\<rparr>,
         \<lparr>isAllowed = True, path = [], pattern = Some [RLit 47, RLit 122, REndText]\<rparr>,
         \<lparr>isAllowed = False, path = ''/a'', pattern = None\<rparr>,
         \<lparr>isAllowed = True, path = ''/b'', pattern = None\<rparr>] ''/a/x'' 3
   \<and> group_isAllowed
     \<lparr>rules =
        [\<lparr>isAllowed = False, path = ''/'', pattern = None\<rparr>,
         \<lparr>isAllowed = True, path = ''/a'', pattern = None\<rparr>,
         \<lparr>isAllowed = True, path = [], pattern = Some [RLit 47, RLit 122, REndText]\<rparr>,
         \<lparr>isAllowed = False, path = ''/a'', pattern = None\<rparr>,
         \<lparr>isAllowed = True, path = ''/b'', pattern = None\<rparr>],
      crawlDelay = 0\<rparr> ''bot'' ''/a/x'' = False"
proof -
  let ?rs = "[\<lparr>isAllowed = False, path = ''/'', pattern = None\<rparr>,
         \<lparr>isAllowed = True, path = ''/a'', pattern = None\<rparr>,
         \<lparr>isAllowed = True, path = [], pattern = Some [RLit 47, RLit 122, REndText]\<rparr>,
         \<lparr>isAllowed = False, path = ''/a'', pattern = None\<rparr>,
         \<lparr>isAllowed = True, path = ''/b'', pattern = None\<rparr>]"
  let ?g = "\<lparr>rules = ?rs, crawlDelay = 0\<rparr>"
  have np: "\<forall>r \<in> set (rules ?g). \<not> pattern_matches r ''/a/x''"
    by (simp add: pattern_matches_def regexp_MatchString_def seq_len_def)
  have d: "decides (rules ?g) ''/a/x'' 3"
    by (simp add: decides_def literal_matches_def strings_HasPrefix_def All_less_Suc)
  have f: "List.find (\<lambda>r. pattern_matches r ''/a/x'') ?rs = None"
    by (simp add: pattern_matches_def regexp_MatchString_def seq_len_def)
  show ?thesis
    using f d longest_literal_prefix_decides [OF np, of 3 "''bot''"] by simp
qed

section \<open>Evaluation\<close>

lemmas lib_defs = sample_lib_def long_expression_def ascii_TrimSpace_def ascii_ToLower_def ascii_space_def http_Parse_def
  ascii_ToASCII_def int_ParseFloat_def plain_char_def isalnum_def is_digit_def char_of_def bit_0

lemmas parse_defs = parse_line_def strings_SplitN2_def normaliseUserAgent_def strings_IndexRune_def
  addPathRule_def addCrawlDelay_def get_group_def put_group_def isPattern_def strings_HasSuffix_def
  replaceSuffix_def ishex_def unhex_def

lemmas rule_defs = new_rules_def decode_path_def isPattern_def strings_IndexRune_def
  strings_HasSuffix_def replaceSuffix_def ishex_def unhex_def char_of_def bit_0
  compilePattern_def regexp_Compile_def regexp_QuoteMeta_def special_def seq_len_def
  re_cons_def RuneError_def second_byte_ok_def cont_byte_def

lemmas piece_defs = decode_piece_def decodes_def restore_star_def replaceSuffix_def
  strings_HasSuffix_def ishex_def unhex_def char_of_def bit_0

lemma example_url_normalized:
  "parseAndNormalizeURL sample_lib ''http://www.example.com/robots.txt'' = Inr example_url"
  by (simp add: parseAndNormalizeURL_def lib_defs example_url_def)

section \<open>The query functions\<close>

text \<open>
  Claim C5. \<open>IsAllowed\<close> and \<open>CrawlDelay\<close> read the rule set stored under the normalised
  agent name whenever there is one, whatever it holds, and the rule set of \<open>*\<close> only when
  there is none.
\<close>

theorem own_rule_set_suppresses_fallback:
  "(groups r (normaliseUserAgent L ua) = Some g \<longrightarrow>
      CrawlDelay L r ua = crawlDelay g \<and>
      (parseAndNormalizeURL L s = Inr u \<and> Scheme u = Scheme (url r) \<and> Host u = Host (url r)
         \<longrightarrow> IsAllowed L r ua s = Inr (group_isAllowed g ua (Path u))))
   \<and> (groups r (normaliseUserAgent L ua) = None \<longrightarrow>
      CrawlDelay L r ua = (case groups r ''*'' of Some g' \<Rightarrow> crawlDelay g' | None \<Rightarrow> 0) \<and>
      (parseAndNormalizeURL L s = Inr u \<and> Scheme u = Scheme (url r) \<and> Host u = Host (url r)
         \<longrightarrow> IsAllowed L r ua s =
               Inr (case groups r ''*'' of
                      Some g' \<Rightarrow> group_isAllowed g' ua (Path u) | None \<Rightarrow> True)))"
  by (simp add: CrawlDelay_def IsAllowed_def)

text \<open>The scenario of the claim: agent \<open>b\<close> has a rule set of its own (one rule, the
  empty path, allowed), so its crawl delay is 0 and \<open>/test/\<close> is allowed; agent \<open>c\<close>
  has none and gets the values of \<open>*\<close>.\<close>

theorem own_rule_set_suppresses_fallback_witness:
  "Parse sample_lib
     ''User-agent: *\<newline>Disallow: /test/\<newline>Crawl-delay: 1\<newline>User-agent: b\<newline>Allow:''
     ''http://www.example.com/robots.txt''
   = Inr (parse_lines sample_lib example_url
       [''User-agent: *'', ''Disallow: /test/'', ''Crawl-delay: 1'', ''User-agent: b'', ''Allow:''])
   \<and> CrawlDelay sample_lib (parse_lines sample_lib example_url
       [''User-agent: *'', ''Disallow: /test/'', ''Crawl-delay: 1'', ''User-agent: b'', ''Allow:'']) ''b'' = 0
   \<and> IsAllowed sample_lib (parse_lines sample_lib example_url
       [''User-agent: *'', ''Disallow: /test/'', ''Crawl-delay: 1'', ''User-agent: b'', ''Allow:''])
       ''b'' ''http://www.example.com/test/'' = Inr True
   \<and> CrawlDelay sample_lib (parse_lines sample_lib example_url
       [''User-agent: *'', ''Disallow: /test/'', ''Crawl-delay: 1'', ''User-agent: b'', ''Allow:'']) ''c''
       = 1000000000
   \<and> IsAllowed sample_lib (parse_lines sample_lib example_url
       [''User-agent: *'', ''Disallow: /test/'', ''Crawl-delay: 1'', ''User-agent: b'', ''Allow:''])
       ''c'' ''http://www.example.com/test/'' = Inr False"
proof -
  let ?r = "parse_lines sample_lib example_url
       [''User-agent: *'', ''Disallow: /test/'', ''Crawl-delay: 1'', ''User-agent: b'', ''Allow:'']"
  let ?gb = "\<lparr>rules = [\<lparr>isAllowed = True, path = [], pattern = None\<rparr>], crawlDelay = 0\<rparr>"
  let ?u = "\<lparr>Scheme = ''http'', Host = ''www.example.com'', Path = ''/test/''\<rparr>"
  have p: "Parse sample_lib
     ''User-agent: *\<newline>Disallow: /test/\<newline>Crawl-delay: 1\<newline>User-agent: b\<newline>Allow:''
     ''http://www.example.com/robots.txt'' = Inr ?r"
    by (simp add: Parse_def example_url_normalized)
  have nb: "normaliseUserAgent sample_lib ''b'' = ''b''"
    and nc: "normaliseUserAgent sample_lib ''c'' = ''c''"
    by (simp_all add: normaliseUserAgent_def strings_IndexRune_def lib_defs)
  have gb: "groups ?r (normaliseUserAgent sample_lib ''b'') = Some ?gb"
    unfolding nb by (simp add: parse_lines_def parse_defs lib_defs parse_init_def Let_def)
  have gc: "groups ?r (normaliseUserAgent sample_lib ''c'') = None"
    unfolding nc by (simp add: parse_lines_def parse_defs lib_defs parse_init_def Let_def)
  have gs: "groups ?r ''*'' = Some \<lparr>rules = [\<lparr>isAllowed = False, path = ''/test/'', pattern = None\<rparr>],
      crawlDelay = 1000000000\<rparr>"
    by (simp add: parse_lines_def parse_defs lib_defs parse_init_def Let_def)
  have ur: "url ?r = example_url"
    by (simp add: parse_lines_def parse_defs lib_defs parse_init_def Let_def)
  have q: "parseAndNormalizeURL sample_lib ''http://www.example.com/test/'' = Inr ?u"
    by (simp add: parseAndNormalizeURL_def lib_defs)
  have so: "Scheme ?u = Scheme (url ?r)" "Host ?u = Host (url ?r)"
    unfolding ur by (simp_all add: example_url_def)
  have b: "CrawlDelay sample_lib ?r ''b'' = 0
      \<and> IsAllowed sample_lib ?r ''b'' ''http://www.example.com/test/'' = Inr True"
    using own_rule_set_suppresses_fallback
      [of ?r sample_lib "''b''" ?gb "''http://www.example.com/test/''" ?u] gb q so
    by (simp add: group_isAllowed_def strings_HasPrefix_def)
  have c: "CrawlDelay sample_lib ?r ''c'' = 1000000000
      \<and> IsAllowed sample_lib ?r ''c'' ''http://www.example.com/test/'' = Inr False"
    using own_rule_set_suppresses_fallback
      [of ?r sample_lib "''c''" ?gb "''http://www.example.com/test/''" ?u] gc gs q so
    by (simp add: group_isAllowed_def strings_HasPrefix_def)
  show ?thesis using p b c by blast
qed

text \<open>
  Claim C9. A \<open>Disallow\<close> with an empty value stores a literal rule whose path is the
  empty string, and an agent whose rule set holds just this rule is refused every URL of
  the file's origin.
\<close>

theorem empty_disallow_blocks_everything:
  "fst (addPathRule L r a [] False) =
     put_group r a ((get_group r a)\<lparr>rules := rules (get_group r a)
         @ [\<lparr>isAllowed = False, path = [], pattern = None\<rparr>]\<rparr>)
   \<and> (groups r (normaliseUserAgent L ua) = Some g
        \<and> rules g = [\<lparr>isAllowed = False, path = [], pattern = None\<rparr>]
        \<and> parseAndNormalizeURL L s = Inr u
        \<and> Scheme u = Scheme (url r) \<and> Host u = Host (url r)
      \<longrightarrow> IsAllowed L r ua s = Inr False)"
  by (simp add: addPathRule_def isPattern_def strings_IndexRune_def strings_HasSuffix_def
        IsAllowed_def group_isAllowed_def strings_HasPrefix_def Let_def)

text \<open>An instance: the file \<open>User-agent: a\<close>, \<open>Disallow:\<close>.\<close>

theorem empty_disallow_blocks_everything_witness:
  "Parse sample_lib ''User-agent: a\<newline>Disallow:'' ''http://www.example.com/robots.txt''
     = Inr (parse_lines sample_lib example_url [''User-agent: a'', ''Disallow:''])
   \<and> groups (parse_lines sample_lib example_url [''User-agent: a'', ''Disallow:'']) ''a''
     = Some \<lparr>rules = [\<lparr>isAllowed = False, path = [], pattern = None\<rparr>], crawlDelay = 0\<rparr>
   \<and> IsAllowed sample_lib (parse_lines sample_lib example_url [''User-agent: a'', ''Disallow:''])
       ''A/1.0'' ''http://www.example.com/index.html'' = Inr False"
proof -
  let ?r = "parse_lines sample_lib example_url [''User-agent: a'', ''Disallow:'']"
  let ?g = "\<lparr>rules = [\<lparr>isAllowed = False, path = [], pattern = None\<rparr>], crawlDelay = 0\<rparr>"
  let ?u = "\<lparr>Scheme = ''http'', Host = ''www.example.com'', Path = ''/index.html''\<rparr>"
  have p: "Parse sample_lib ''User-agent: a\<newline>Disallow:'' ''http://www.example.com/robots.txt''
      = Inr ?r"
    by (simp add: Parse_def example_url_normalized)
  have n: "normaliseUserAgent sample_lib ''A/1.0'' = ''a''"
    by (simp add: normaliseUserAgent_def strings_IndexRune_def lib_defs)
  have ga: "groups ?r ''a'' = Some ?g"
    by (simp add: parse_lines_def parse_defs lib_defs parse_init_def Let_def)
  have ur: "url ?r = example_url"
    by (simp add: parse_lines_def parse_defs lib_defs parse_init_def Let_def)
  have q: "parseAndNormalizeURL sample_lib ''http://www.example.com/index.html'' = Inr ?u"
    by (simp add: parseAndNormalizeURL_def lib_defs)
  have "IsAllowed sample_lib ?r ''A/1.0'' ''http://www.example.com/index.html'' = Inr False"
    using empty_disallow_blocks_everything
      [of sample_lib ?r "''a''" "''A/1.0''" ?g "''http://www.example.com/index.html''" ?u]
      ga n q ur
    by (simp add: example_url_def)
  then show ?thesis using p ga by blast
qed

section \<open>One turn of the parsing loop\<close>

lemma parse_line_no_colon: "\<not> has_colon l \<Longrightarrow> parse_line L st l = st"
  by (simp add: parse_line_def has_colon_def strings_SplitN2_def)

lemma parse_line_colon:
  "has_colon l \<Longrightarrow>
   parse_line L st l =
     (if line_key L l = ''user-agent'' then
        st\<lparr>userAgents := (if isNoneUserAgentState st then [] else userAgents st)
                           @ [normaliseUserAgent L (line_val L l)],
           isNoneUserAgentState := False\<rparr>
      else if line_key L l = ''allow'' then
        st\<lparr>robotsTxt := foldl (\<lambda>r ua. fst (addPathRule L r ua (line_val L l) True))
                           (robotsTxt st) (userAgents st),
           isNoneUserAgentState := True\<rparr>
      else if line_key L l = ''disallow'' then
        st\<lparr>robotsTxt := foldl (\<lambda>r ua. fst (addPathRule L r ua (line_val L l) False))
                           (robotsTxt st) (userAgents st),
           isNoneUserAgentState := True\<rparr>
      else if line_key L l = ''crawl-delay'' then
        st\<lparr>robotsTxt := foldl (\<lambda>r ua. addCrawlDelay L r ua (line_val L l))
                           (robotsTxt st) (userAgents st),
           isNoneUserAgentState := True\<rparr>
      else if line_key L l = ''sitemap'' then
        (if line_val L l \<noteq> [] then
           st\<lparr>robotsTxt := (robotsTxt st)\<lparr>sitemaps := sitemaps (robotsTxt st) @ [line_val L l]\<rparr>,
              isNoneUserAgentState := True\<rparr>
         else st\<lparr>isNoneUserAgentState := True\<rparr>)
      else if line_key L l = ''host'' then
        (if line_val L l \<noteq> [] then
           st\<lparr>robotsTxt := (robotsTxt st)\<lparr>host := line_val L l\<rparr>,
              isNoneUserAgentState := True\<rparr>
         else st\<lparr>isNoneUserAgentState := True\<rparr>)
      else st\<lparr>isNoneUserAgentState := True\<rparr>)"
  by (simp add: parse_line_def has_colon_def strings_SplitN2_def line_key_def line_val_def
        Let_def)

lemma get_group_put_group:
  "get_group (put_group r a g) x = (if x = a then g else get_group r x)"
  by (simp add: get_group_def put_group_def)

lemma groups_put_group:
  "groups (put_group r a g) x = (if x = a then Some g else groups r x)"
  by (simp add: put_group_def)

lemma put_group_fields [simp]:
  "url (put_group r a g) = url r" "sitemaps (put_group r a g) = sitemaps r"
  "host (put_group r a g) = host r"
  by (simp_all add: put_group_def)

lemma addPathRule_fields [simp]:
  "url (fst (addPathRule L r a v b)) = url r"
  "sitemaps (fst (addPathRule L r a v b)) = sitemaps r"
  "host (fst (addPathRule L r a v b)) = host r"
  by (simp_all add: addPathRule_def Let_def split: sum.splits)

lemma addCrawlDelay_fields [simp]:
  "url (addCrawlDelay L r a v) = url r"
  "sitemaps (addCrawlDelay L r a v) = sitemaps r"
  "host (addCrawlDelay L r a v) = host r"
  by (simp_all add: addCrawlDelay_def Let_def split: option.splits)

lemma foldl_addPathRule_fields [simp]:
  "url (foldl (\<lambda>r ua. fst (addPathRule L r ua v b)) r as) = url r"
  "sitemaps (foldl (\<lambda>r ua. fst (addPathRule L r ua v b)) r as) = sitemaps r"
  "host (foldl (\<lambda>r ua. fst (addPathRule L r ua v b)) r as) = host r"
  by (induction as arbitrary: r) simp_all

lemma foldl_addCrawlDelay_fields [simp]:
  "url (foldl (\<lambda>r ua. addCrawlDelay L r ua v) r as) = url r"
  "sitemaps (foldl (\<lambda>r ua. addCrawlDelay L r ua v) r as) = sitemaps r"
  "host (foldl (\<lambda>r ua. addCrawlDelay L r ua v) r as) = host r"
  by (induction as arbitrary: r) simp_all

lemma url_parse_line: "url (robotsTxt (parse_line L st l)) = url (robotsTxt st)"
  by (cases "has_colon l") (simp_all add: parse_line_no_colon parse_line_colon)

lemma url_foldl_parse_line:
  "url (robotsTxt (foldl (parse_line L) st ls)) = url (robotsTxt st)"
  by (induction ls arbitrary: st) (simp_all add: url_parse_line)

lemma url_parse_lines: "url (parse_lines L u ls) = u"
  by (simp add: parse_lines_def url_foldl_parse_line parse_init_def)

lemma Parse_Inr:
  "Parse L contents base = Inr r \<Longrightarrow>
   \<exists>ub hb. url_Parse L base = Some ub \<and> idna_ToASCII L (Host ub) = Some hb
      \<and> url r = ub\<lparr>Host := hb\<rparr>"
  by (auto simp: Parse_def parseAndNormalizeURL_def url_parse_lines
      split: option.splits sum.splits)

section \<open>Errors of a query\<close>

text \<open>
  Claim C7, amended. For a file parsed from base URL \<open>base\<close>, \<open>IsAllowed\<close> fails with
  the parser's error exactly when \<open>url.Parse\<close> rejects the URL, with the error of
  \<open>idna.ToASCII\<close> exactly when the URL parses and its host cannot be converted, with
  \<open>InvalidHostError\<close> exactly when both succeed and the scheme, or the converted host,
  differs from that of the base URL, and it answers exactly when scheme and converted
  host are those of the base URL. So a Unicode host and its punycode form are one origin
  as far as \<open>idna.ToASCII\<close> maps them to one string; hosts that differ in letter case
  are not.
\<close>

theorem IsAllowed_error_cases:
  assumes "Parse L contents base = Inr r"
  shows "(IsAllowed L r ua s = Inl ParseError \<longleftrightarrow> url_Parse L s = None)
    \<and> (IsAllowed L r ua s = Inl ToASCIIError \<longleftrightarrow>
         (\<exists>u. url_Parse L s = Some u \<and> idna_ToASCII L (Host u) = None))
    \<and> (IsAllowed L r ua s = Inl InvalidHostError \<longleftrightarrow>
         (\<exists>u h ub hb. url_Parse L s = Some u \<and> idna_ToASCII L (Host u) = Some h
            \<and> url_Parse L base = Some ub \<and> idna_ToASCII L (Host ub) = Some hb
            \<and> (Scheme u \<noteq> Scheme ub \<or> h \<noteq> hb)))
    \<and> ((\<exists>b. IsAllowed L r ua s = Inr b) \<longleftrightarrow>
         (\<exists>u h ub. url_Parse L s = Some u \<and> idna_ToASCII L (Host u) = Some h
            \<and> url_Parse L base = Some ub \<and> idna_ToASCII L (Host ub) = Some h
            \<and> Scheme u = Scheme ub))"
proof -
  obtain ub hb where b: "url_Parse L base = Some ub" "idna_ToASCII L (Host ub) = Some hb"
      "url r = ub\<lparr>Host := hb\<rparr>"
    using Parse_Inr[OF assms] by blast
  show ?thesis
    using b by (auto simp: IsAllowed_def parseAndNormalizeURL_def split: option.splits)
qed

theorem IsAllowed_error_cases_witness:
  "Parse sample_lib ''User-agent: *\<newline>Disallow: /secret'' ''http://www.example.com/robots.txt''
     = Inr (parse_lines sample_lib example_url [''User-agent: *'', ''Disallow: /secret''])
   \<and> (\<exists>b. IsAllowed sample_lib
          (parse_lines sample_lib example_url [''User-agent: *'', ''Disallow: /secret''])
          ''*'' ''http://www.example.com/index.html'' = Inr b)
   \<and> IsAllowed sample_lib
          (parse_lines sample_lib example_url [''User-agent: *'', ''Disallow: /secret''])
          ''*'' ''http://www.example.com/index.html'' \<noteq> Inl InvalidHostError"
proof -
  let ?r = "parse_lines sample_lib example_url [''User-agent: *'', ''Disallow: /secret'']"
  have p: "Parse sample_lib ''User-agent: *\<newline>Disallow: /secret''
      ''http://www.example.com/robots.txt'' = Inr ?r"
    by (simp add: Parse_def example_url_normalized)
  show ?thesis
    using p IsAllowed_error_cases [OF p, of "''*''" "''http://www.example.com/index.html''"]
    by (simp add: lib_defs)
qed

text \<open>Claim C7 as stated fails: \<open>url.Parse\<close> and \<open>idna.ToASCII\<close> keep the letter case
  of an ASCII host, and the comparison is exact, so \<open>WWW.EXAMPLE.COM\<close> is not the origin
  \<open>www.example.com\<close>.\<close>

theorem host_case_counterexample:
  "Parse sample_lib ''User-agent: *\<newline>Disallow: /secret'' ''http://www.example.com/robots.txt''
     = Inr (parse_lines sample_lib example_url [''User-agent: *'', ''Disallow: /secret''])
   \<and> IsAllowed sample_lib
          (parse_lines sample_lib example_url [''User-agent: *'', ''Disallow: /secret''])
          ''*'' ''http://WWW.EXAMPLE.COM/index.html'' = Inl InvalidHostError"
  by (simp add: Parse_def example_url_normalized IsAllowed_def parseAndNormalizeURL_def
        url_parse_lines lib_defs example_url_def)

section \<open>Crawl delays\<close>

lemma get_group_addCrawlDelay:
  "get_group (addCrawlDelay L r a v) x =
     (if x = a
      then (get_group r a)\<lparr>crawlDelay :=
             (case strconv_ParseFloat L v of
                Some d \<Rightarrow> time_Duration L d | None \<Rightarrow> crawlDelay (get_group r a))\<rparr>
      else get_group r x)"
  by (simp add: addCrawlDelay_def Let_def get_group_put_group split: option.splits)

lemma groups_addCrawlDelay:
  "groups (addCrawlDelay L r a v) x =
     (if x = a
      then Some ((get_group r a)\<lparr>crawlDelay :=
             (case strconv_ParseFloat L v of
                Some d \<Rightarrow> time_Duration L d | None \<Rightarrow> crawlDelay (get_group r a))\<rparr>)
      else groups r x)"
  by (simp add: addCrawlDelay_def Let_def groups_put_group split: option.splits)

lemma groups_foldl_addCrawlDelay:
  "groups (foldl (\<lambda>r ua. addCrawlDelay L r ua v) r as) x =
     (if x \<in> set as
      then Some ((get_group r x)\<lparr>crawlDelay :=
             (case strconv_ParseFloat L v of
                Some d \<Rightarrow> time_Duration L d | None \<Rightarrow> crawlDelay (get_group r x))\<rparr>)
      else groups r x)"
proof (induction as arbitrary: r)
  case Nil
  then show ?case by simp
next
  case (Cons a as)
  show ?case
    by (simp add: Cons.IH get_group_addCrawlDelay groups_addCrawlDelay split: option.splits)
qed

text \<open>
  Claim C8, amended. A \<open>crawl-delay\<close> line hands its value to \<open>strconv.ParseFloat\<close>
  (which also accepts negative numbers) and, when that succeeds, stores the converted
  value for every active user agent; when it fails, every active agent keeps its
  previous delay (0 for a rule set that did not exist), though the rule set is created.
  Rules, other agents, sitemaps and host are untouched, and \<open>Parse\<close> fails on the base
  URL only, whatever the contents.
\<close>

theorem crawl_delay_directive:
  assumes "has_colon l" and "line_key L l = ''crawl-delay''"
  shows "(\<forall>a \<in> set (userAgents st).
            \<exists>g. groups (robotsTxt (parse_line L st l)) a = Some g
              \<and> rules g = rules (get_group (robotsTxt st) a)
              \<and> crawlDelay g =
                  (case strconv_ParseFloat L (line_val L l) of
                     Some d \<Rightarrow> time_Duration L d
                   | None \<Rightarrow> crawlDelay (get_group (robotsTxt st) a)))
    \<and> (\<forall>a. a \<notin> set (userAgents st) \<longrightarrow>
            groups (robotsTxt (parse_line L st l)) a = groups (robotsTxt st) a)
    \<and> (\<forall>a. groups (robotsTxt st) a = None \<longrightarrow> crawlDelay (get_group (robotsTxt st) a) = 0)
    \<and> sitemaps (robotsTxt (parse_line L st l)) = sitemaps (robotsTxt st)
    \<and> host (robotsTxt (parse_line L st l)) = host (robotsTxt st)
    \<and> userAgents (parse_line L st l) = userAgents st
    \<and> ((\<exists>r. Parse L contents base = Inr r) \<longleftrightarrow> (\<exists>u. parseAndNormalizeURL L base = Inr u))"
  using assms
  by (auto simp: parse_line_colon groups_foldl_addCrawlDelay get_group_def Parse_def
      split: sum.splits)

theorem crawl_delay_directive_witness:
  "has_colon ''Crawl-delay: 10'' \<and> line_key sample_lib ''Crawl-delay: 10'' = ''crawl-delay''
   \<and> (\<exists>g. groups (robotsTxt (parse_line sample_lib
              \<lparr>robotsTxt = \<lparr>url = example_url, groups = Map.empty, sitemaps = [], host = []\<rparr>,
               userAgents = [''a'', ''b''], isNoneUserAgentState = False\<rparr>
              ''Crawl-delay: 10'')) ''b'' = Some g
          \<and> rules g = [] \<and> crawlDelay g = 10000000000)"
proof -
  let ?st = "\<lparr>robotsTxt = \<lparr>url = example_url, groups = Map.empty, sitemaps = [], host = []\<rparr>,
               userAgents = [''a'', ''b''], isNoneUserAgentState = False\<rparr>"
  have c: "has_colon ''Crawl-delay: 10''" by (simp add: has_colon_def)
  have k: "line_key sample_lib ''Crawl-delay: 10'' = ''crawl-delay''"
    by (simp add: line_key_def lib_defs)
  have v: "strconv_ParseFloat sample_lib (line_val sample_lib ''Crawl-delay: 10'') = Some 10"
    by (simp add: line_val_def lib_defs)
  have "\<forall>a \<in> set (userAgents ?st).
            \<exists>g. groups (robotsTxt (parse_line sample_lib ?st ''Crawl-delay: 10'')) a = Some g
              \<and> rules g = rules (get_group (robotsTxt ?st) a)
              \<and> crawlDelay g =
                  (case strconv_ParseFloat sample_lib (line_val sample_lib ''Crawl-delay: 10'') of
                     Some d \<Rightarrow> time_Duration sample_lib d
                   | None \<Rightarrow> crawlDelay (get_group (robotsTxt ?st) a))"
    using crawl_delay_directive [OF c k, of ?st] by blast
  then have "\<exists>g. groups (robotsTxt (parse_line sample_lib ?st ''Crawl-delay: 10'')) ''b'' = Some g
              \<and> rules g = rules (get_group (robotsTxt ?st) ''b'')
              \<and> crawlDelay g =
                  (case strconv_ParseFloat sample_lib (line_val sample_lib ''Crawl-delay: 10'') of
                     Some d \<Rightarrow> time_Duration sample_lib d
                   | None \<Rightarrow> crawlDelay (get_group (robotsTxt ?st) ''b''))"
    by simp
  then show ?thesis
    using c k unfolding v by (simp add: get_group_def sample_lib_def)
qed

text \<open>Claim C8 as stated fails: the value need not be non-negative.\<close>

theorem negative_crawl_delay_counterexample:
  "Parse sample_lib ''User-agent: a\<newline>Crawl-delay: -1'' ''http://www.example.com/robots.txt''
     = Inr (parse_lines sample_lib example_url [''User-agent: a'', ''Crawl-delay: -1''])
   \<and> CrawlDelay sample_lib
        (parse_lines sample_lib example_url [''User-agent: a'', ''Crawl-delay: -1'']) ''a''
     = - 1000000000"
proof -
  have "Parse sample_lib ''User-agent: a\<newline>Crawl-delay: -1''
      ''http://www.example.com/robots.txt''
      = Inr (parse_lines sample_lib example_url [''User-agent: a'', ''Crawl-delay: -1''])"
    by (simp add: Parse_def example_url_normalized)
  moreover have "CrawlDelay sample_lib
        (parse_lines sample_lib example_url [''User-agent: a'', ''Crawl-delay: -1'']) ''a''
     = - 1000000000"
    by (simp add: CrawlDelay_def parse_lines_def parse_defs lib_defs parse_init_def Let_def)
  ultimately show ?thesis by blast
qed

section \<open>Ignored lines\<close>

lemma Split_no_sep: "sep \<notin> set l \<Longrightarrow> strings_Split (l @ sep # s) sep = l # strings_Split s sep"
  by (induction l) auto

lemma Split_no_sep_end: "sep \<notin> set l \<Longrightarrow> strings_Split l sep = [l]"
  by (induction l) auto

lemma Split_join_lines:
  "ls \<noteq> [] \<Longrightarrow> \<forall>l \<in> set ls. CHR 0x0A \<notin> set l \<Longrightarrow>
   strings_Split (join_lines ls) CHR 0x0A = ls"
  by (induction ls rule: join_lines.induct) (simp_all add: Split_no_sep Split_no_sep_end)

lemma foldl_parse_line_filter:
  "foldl (parse_line L) st ls = foldl (parse_line L) st (filter has_colon ls)"
  by (induction ls arbitrary: st) (simp_all add: parse_line_no_colon)

lemma flag_parse_line:
  "has_colon l \<Longrightarrow> isNoneUserAgentState (parse_line L st l) = (line_key L l \<noteq> ''user-agent'')"
  by (simp add: parse_line_colon)

lemma parse_line_ignored:
  "has_colon l \<Longrightarrow> line_key L l \<notin> set recognised_keys \<Longrightarrow>
   parse_line L st l = st\<lparr>isNoneUserAgentState := True\<rparr>"
  by (simp add: parse_line_colon recognised_keys_def)

lemma parse_line_flag_irrelevant:
  "has_colon c \<Longrightarrow> line_key L c \<noteq> ''user-agent'' \<or> userAgents st = [] \<Longrightarrow>
   parse_line L (st\<lparr>isNoneUserAgentState := b\<rparr>) c = parse_line L st c"
  by (auto simp: parse_line_colon)

lemma flag_foldl:
  "cs \<noteq> [] \<Longrightarrow> \<forall>c \<in> set cs. has_colon c \<Longrightarrow>
   isNoneUserAgentState (foldl (parse_line L) st cs) = (line_key L (last cs) \<noteq> ''user-agent'')"
  by (induction cs arbitrary: st) (auto simp: flag_parse_line)

lemma foldl_flag_irrelevant:
  assumes "\<forall>c \<in> set cs. has_colon c"
    and "(case cs of [] \<Rightarrow> True | c # _ \<Rightarrow> line_key L c \<noteq> ''user-agent'') \<or> userAgents st = []"
  shows "robotsTxt (foldl (parse_line L) (st\<lparr>isNoneUserAgentState := b\<rparr>) cs)
       = robotsTxt (foldl (parse_line L) st cs)"
proof (cases cs)
  case Nil
  then show ?thesis by simp
next
  case (Cons c cs')
  then have "parse_line L (st\<lparr>isNoneUserAgentState := b\<rparr>) c = parse_line L st c"
    using assms by (intro parse_line_flag_irrelevant) auto
  then show ?thesis using Cons by simp
qed

lemma ignored_line_deletable_lines:
  assumes ig: "ignored_line L l"
    and ctx: "\<not> has_colon l \<or> not_user_agent L (last_directive pre)
              \<or> not_user_agent L (first_directive post)"
  shows "parse_lines L u (pre @ l # post) = parse_lines L u (pre @ post)"
proof (cases "has_colon l")
  case False
  have "foldl (parse_line L) (parse_init u) (pre @ l # post)
      = foldl (parse_line L) (parse_init u) (pre @ post)"
    using False by (simp add: parse_line_no_colon)
  then show ?thesis by (simp add: parse_lines_def)
next
  case True
  let ?cpre = "filter has_colon pre" and ?cpost = "filter has_colon post"
  let ?s = "foldl (parse_line L) (parse_init u) ?cpre"
  have key: "line_key L l \<notin> set recognised_keys" using ig True by (simp add: ignored_line_def)
  have step: "parse_line L ?s l = ?s\<lparr>isNoneUserAgentState := True\<rparr>"
    using True key by (rule parse_line_ignored)
  have w1: "parse_lines L u (pre @ l # post)
      = robotsTxt (foldl (parse_line L) (?s\<lparr>isNoneUserAgentState := True\<rparr>) ?cpost)"
    unfolding parse_lines_def
    by (subst foldl_parse_line_filter) (simp add: True step)
  have w2: "parse_lines L u (pre @ post) = robotsTxt (foldl (parse_line L) ?s ?cpost)"
    unfolding parse_lines_def
    by (subst foldl_parse_line_filter) simp
  have "robotsTxt (foldl (parse_line L) (?s\<lparr>isNoneUserAgentState := True\<rparr>) ?cpost)
      = robotsTxt (foldl (parse_line L) ?s ?cpost)"
  proof (cases "not_user_agent L (first_directive post)")
    case True
    then have "(case ?cpost of [] \<Rightarrow> True | c # _ \<Rightarrow> line_key L c \<noteq> ''user-agent'')"
      by (simp add: not_user_agent_def first_directive_def split: list.splits)
    then show ?thesis by (intro foldl_flag_irrelevant) auto
  next
    case False
    then have a: "not_user_agent L (last_directive pre)" using ctx \<open>has_colon l\<close> by blast
    show ?thesis
    proof (cases ?cpre)
      case Nil
      then have "?s = parse_init u" by simp
      then have "userAgents ?s = []" by (simp add: parse_init_def)
      then show ?thesis by (intro foldl_flag_irrelevant) auto
    next
      case (Cons c cs)
      then have "line_key L (last ?cpre) \<noteq> ''user-agent''"
        using a by (simp add: not_user_agent_def last_directive_def)
      moreover have "?cpre \<noteq> []" using Cons by simp
      moreover have "\<forall>c \<in> set ?cpre. has_colon c" by simp
      ultimately have "isNoneUserAgentState ?s"
        using flag_foldl[of ?cpre L "parse_init u"] by blast
      then have "?s\<lparr>isNoneUserAgentState := True\<rparr> = ?s" by simp
      then show ?thesis by simp
    qed
  qed
  then show ?thesis using w1 w2 by simp
qed


lemma parse_lines_empty_line: "parse_lines L u [[]] = parse_lines L u []"
  by (simp add: parse_lines_def parse_line_no_colon has_colon_def)

lemma Split_join_lines':
  "\<forall>l \<in> set ls. CHR 0x0A \<notin> set l \<Longrightarrow>
   parse_lines L u (strings_Split (join_lines ls) CHR 0x0A) = parse_lines L u ls"
  by (cases "ls = []") (simp_all add: Split_join_lines parse_lines_empty_line)

text \<open>
  Where a line of this kind is without effect. A line without a colon changes nothing.
  A line with a colon whose key is none of the six directives adds nothing either, and
  can be deleted when the nearest line with a colon before it, or the nearest one after
  it, is not a \<open>user-agent\<close> line (or does not exist).
\<close>

lemma ignored_line_without_effect:
  assumes "ignored_line L l"
    and "\<not> has_colon l \<or> not_user_agent L (last_directive pre)
         \<or> not_user_agent L (first_directive post)"
    and "\<forall>x \<in> set (pre @ l # post). CHR 0x0A \<notin> set x"
  shows "Parse L (join_lines (pre @ l # post)) base = Parse L (join_lines (pre @ post)) base"
proof -
  have a: "\<forall>x \<in> set (pre @ post). CHR 0x0A \<notin> set x" using assms(3) by auto
  show ?thesis
    unfolding Parse_def
    by (simp only: Split_join_lines'[OF assms(3)] Split_join_lines'[OF a]
          ignored_line_deletable_lines[OF assms(1,2)])
qed

text \<open>
  Claim C4 does not hold of the code. \<open>Parse\<close> assigns \<open>isNoneUserAgentState\<close> after
  the \<open>switch\<close>, for every line that has a colon, whatever its key; a line without a
  colon leaves the flag alone. So a comment that contains a colon, standing between two
  \<open>user-agent\<close> lines, ends the group of the first: in the file \<open>User-agent: a\<close>,
  \<open># robots: all\<close>, \<open>User-agent: b\<close>, \<open>Disallow: /x\<close> agent \<open>a\<close> has no rule set,
  and once the comment is deleted \<open>a\<close> has the rule of \<open>b\<close>. The tests
  \<open>ignoreComments\<close> and \<open>ignoreInvalidLines\<close> of the package expect such lines to be
  ignored.
\<close>

theorem comment_line_splits_group:
  "line_key sample_lib ''# robots: all'' = ''# robots''
   \<and> Parse sample_lib ''User-agent: a\<newline># robots: all\<newline>User-agent: b\<newline>Disallow: /x''
       ''http://www.example.com/robots.txt''
     = Inr (parse_lines sample_lib example_url
         [''User-agent: a'', ''# robots: all'', ''User-agent: b'', ''Disallow: /x''])
   \<and> Parse sample_lib ''User-agent: a\<newline>User-agent: b\<newline>Disallow: /x''
       ''http://www.example.com/robots.txt''
     = Inr (parse_lines sample_lib example_url [''User-agent: a'', ''User-agent: b'', ''Disallow: /x''])
   \<and> groups (parse_lines sample_lib example_url
         [''User-agent: a'', ''# robots: all'', ''User-agent: b'', ''Disallow: /x'']) ''a'' = None
   \<and> groups (parse_lines sample_lib example_url
         [''User-agent: a'', ''User-agent: b'', ''Disallow: /x'']) ''a''
     = Some \<lparr>rules = [\<lparr>isAllowed = False, path = ''/x'', pattern = None\<rparr>], crawlDelay = 0\<rparr>"
proof -
  have "line_key sample_lib ''# robots: all'' = ''# robots''"
    by (simp add: line_key_def lib_defs)
  moreover have "Parse sample_lib ''User-agent: a\<newline># robots: all\<newline>User-agent: b\<newline>Disallow: /x''
       ''http://www.example.com/robots.txt''
     = Inr (parse_lines sample_lib example_url
         [''User-agent: a'', ''# robots: all'', ''User-agent: b'', ''Disallow: /x''])"
    by (simp add: Parse_def example_url_normalized)
  moreover have "Parse sample_lib ''User-agent: a\<newline>User-agent: b\<newline>Disallow: /x''
       ''http://www.example.com/robots.txt''
     = Inr (parse_lines sample_lib example_url [''User-agent: a'', ''User-agent: b'', ''Disallow: /x''])"
    by (simp add: Parse_def example_url_normalized)
  moreover have "groups (parse_lines sample_lib example_url
         [''User-agent: a'', ''# robots: all'', ''User-agent: b'', ''Disallow: /x'']) ''a'' = None"
    by (simp add: parse_lines_def parse_defs lib_defs parse_init_def Let_def)
  moreover have "groups (parse_lines sample_lib example_url
         [''User-agent: a'', ''User-agent: b'', ''Disallow: /x'']) ''a''
     = Some \<lparr>rules = [\<lparr>isAllowed = False, path = ''/x'', pattern = None\<rparr>], crawlDelay = 0\<rparr>"
    by (simp add: parse_lines_def parse_defs lib_defs parse_init_def Let_def)
  ultimately show ?thesis by blast
qed

section \<open>Groups of user agents\<close>

lemma addPathRule_new_rules:
  "fst (addPathRule L r a v b) =
     put_group r a ((get_group r a)\<lparr>rules := rules (get_group r a) @ new_rules L v b\<rparr>)"
  by (simp add: addPathRule_def new_rules_def decode_path_def Let_def split: sum.splits)








section \<open>The pattern compiler\<close>

lemma G_simps [simp]: "quoted_src [] = []" "quoted_src (c # cs) = quote_star c @ quoted_src cs" "quoted_src (xs @ ys) = quoted_src xs @ quoted_src ys"
  by (simp_all add: quoted_src_def)

lemma QuoteMeta_Cons:
  "regexp_QuoteMeta [] = []"
  "regexp_QuoteMeta (c # cs) = (if special c then [CHR 0x5C, c] else [c]) @ regexp_QuoteMeta cs"
  by (simp_all add: regexp_QuoteMeta_def)

lemma QuoteMeta_not_star: "\<not> prefix ''*'' (regexp_QuoteMeta d)"
  by (cases d) (auto simp: QuoteMeta_Cons special_def)

lemma Replace_QuoteMeta:
  "strings_Replace (regexp_QuoteMeta d) [CHR 0x5C, CHR ''*''] ''(?:.*)'' = quoted_src d"
proof (induction d)
  case Nil
  then show ?case by (simp add: QuoteMeta_Cons)
next
  case (Cons c d)
  show ?case
  proof (cases "special c")
    case True
    then show ?thesis
      using Cons QuoteMeta_not_star[of d]
      by (auto simp: QuoteMeta_Cons quote_star_def)
  next
    case False
    then have "c \<noteq> CHR 0x5C" by (auto simp: special_def)
    then show ?thesis
      using Cons False by (auto simp: QuoteMeta_Cons quote_star_def special_def)
  qed
qed

lemma HasSuffix_iff: "strings_HasSuffix s suf \<longleftrightarrow> suffix suf s"
proof
  assume "strings_HasSuffix s suf"
  then have "s = take (length s - length suf) s @ suf"
    by (metis append_take_drop_id strings_HasSuffix_def)
  then show "suffix suf s" by (metis suffixI)
next
  assume "suffix suf s"
  then obtain zs where "s = zs @ suf" by (auto simp: suffix_def)
  then show "strings_HasSuffix s suf" by (simp add: strings_HasSuffix_def)
qed

lemma replaceSuffix_append [simp]: "replaceSuffix (xs @ suf) suf r = xs @ r"
proof -
  have "suffix suf (xs @ suf)" by (simp add: suffix_def)
  then show ?thesis by (simp add: replaceSuffix_def HasSuffix_iff)
qed

lemma replaceSuffix_not: "\<not> suffix suf s \<Longrightarrow> replaceSuffix s suf r = s"
  by (simp add: replaceSuffix_def HasSuffix_iff)

lemma G_plain: "\<forall>c \<in> set w. \<not> special c \<Longrightarrow> quoted_src w = w"
  by (induction w) (auto simp: quote_star_def special_def)

lemma suffix_G_plain:
  "\<forall>c \<in> set w. \<not> special c \<Longrightarrow> suffix w (quoted_src d) \<longleftrightarrow> suffix w d"
proof (induction w arbitrary: d rule: rev_induct)
  case Nil
  then show ?case by simp
next
  case (snoc x w)
  have x: "\<not> special x" and w: "\<forall>c \<in> set w. \<not> special c" using snoc.prems by auto
  have IH: "\<And>e. suffix w (quoted_src e) = suffix w e" using snoc.IH w by blast
  show ?case
  proof (cases d rule: rev_cases)
    case Nil
    then show ?thesis by simp
  next
    case (snoc d' c)
    note d = this
    show ?thesis
    proof (cases "special c")
      case True
      have xc: "x \<noteq> c" using x True by auto
      have xp: "x \<noteq> CHR '')''" using x by (auto simp: special_def)
      have "\<not> suffix (w @ [x]) (quoted_src d' @ quote_star c)"
      proof (cases "c = CHR ''*''")
        case True
        then have "quoted_src d' @ quote_star c = (quoted_src d' @ ''(?:.*'') @ [CHR '')'']"
          by (simp add: quote_star_def)
        then show ?thesis using xp by (simp only: snoc_suffix_snoc) simp
      next
        case False
        then have "quoted_src d' @ quote_star c = (quoted_src d' @ [CHR 0x5C]) @ [c]"
          using True by (simp add: quote_star_def)
        then show ?thesis using xc by (simp only: snoc_suffix_snoc) simp
      qed
      then show ?thesis using d xc by simp
    next
      case False
      then have "quote_star c = [c]" by (auto simp: quote_star_def special_def)
      then show ?thesis using d IH by simp
    qed
  qed
qed

lemma suffix_G_dollar:
  "suffix [CHR 0x5C, CHR ''$''] (quoted_src d) \<longleftrightarrow> suffix ''$'' d"
proof (cases d rule: rev_cases)
  case Nil
  then show ?thesis by simp
next
  case (snoc d' c)
  show ?thesis
  proof (cases "c = CHR ''*''")
    case True
    then have "quoted_src d = (quoted_src d' @ ''(?:.*'') @ [CHR '')'']" using snoc by (simp add: quote_star_def)
    moreover have "[CHR 0x5C, CHR ''$''] = [CHR 0x5C] @ [CHR ''$'']" by simp
    ultimately have "\<not> suffix [CHR 0x5C, CHR ''$''] (quoted_src d)"
      by (simp only: snoc_suffix_snoc) simp
    then show ?thesis using snoc True by simp
  next
    case False
    show ?thesis
    proof (cases "special c")
      case True
      then have "quoted_src d = (quoted_src d' @ [CHR 0x5C]) @ [c]" using snoc False by (simp add: quote_star_def)
      moreover have "[CHR 0x5C, CHR ''$''] = [CHR 0x5C] @ [CHR ''$'']" by simp
      ultimately have "suffix [CHR 0x5C, CHR ''$''] (quoted_src d) \<longleftrightarrow> c = CHR ''$''"
        by (simp only: snoc_suffix_snoc) auto
      then show ?thesis using snoc by auto
    next
      case nsp: False
      then have "c \<noteq> CHR ''$''" by (auto simp: special_def)
      moreover have "quoted_src d = quoted_src d' @ [c]" using snoc nsp False by (simp add: quote_star_def)
      moreover have "[CHR 0x5C, CHR ''$''] = [CHR 0x5C] @ [CHR ''$'']" by simp
      ultimately have "\<not> suffix [CHR 0x5C, CHR ''$''] (quoted_src d)"
        by (simp only: snoc_suffix_snoc) simp
      then show ?thesis using snoc \<open>c \<noteq> CHR ''$''\<close> by simp
    qed
  qed
qed

lemma suffix_stage_dollar: "suffix_stage (quoted_src (d0 @ ''$'')) = quoted_src d0 @ ''$''"
proof -
  have a: "quoted_src (d0 @ ''$'') = quoted_src d0 @ [CHR 0x5C, CHR ''$'']"
    by (simp add: quote_star_def special_def)
  have b: "\<not> suffix ''%24'' (quoted_src d0 @ ''$'')" "\<not> suffix ''%2524'' (quoted_src d0 @ ''$'')"
    by (simp_all add: suffix_to_prefix)
  show ?thesis
    unfolding suffix_stage_def a by (simp add: replaceSuffix_not b)
qed

lemma suffix_stage_24: "suffix_stage (quoted_src (d0 @ ''%24'')) = quoted_src d0 @ [CHR 0x5C, CHR ''$'']"
proof -
  have a: "quoted_src (d0 @ ''%24'') = quoted_src d0 @ ''%24''"
    by (simp add: quote_star_def special_def)
  have b: "\<not> suffix [CHR 0x5C, CHR ''$''] (quoted_src d0 @ ''%24'')"
    "\<not> suffix ''%2524'' (quoted_src d0 @ [CHR 0x5C, CHR ''$''])"
    by (simp_all add: suffix_to_prefix)
  show ?thesis
    unfolding suffix_stage_def a by (simp add: replaceSuffix_not b)
qed

lemma suffix_stage_2524: "suffix_stage (quoted_src (d0 @ ''%2524'')) = quoted_src d0 @ ''%24''"
proof -
  have a: "quoted_src (d0 @ ''%2524'') = quoted_src d0 @ ''%2524''"
    by (simp add: quote_star_def special_def)
  have b: "\<not> suffix [CHR 0x5C, CHR ''$''] (quoted_src d0 @ ''%2524'')"
    "\<not> suffix ''%24'' (quoted_src d0 @ ''%2524'')"
    by (simp_all add: suffix_to_prefix)
  show ?thesis
    unfolding suffix_stage_def a by (simp add: replaceSuffix_not b)
qed

lemma suffix_stage_none:
  "\<not> suffix ''$'' d \<Longrightarrow> \<not> suffix ''%24'' d \<Longrightarrow> \<not> suffix ''%2524'' d \<Longrightarrow>
   suffix_stage (quoted_src d) = quoted_src d"
  unfolding suffix_stage_def
  by (simp add: replaceSuffix_not suffix_G_dollar suffix_G_plain special_def)

lemma quote_star_hd:
  "quote_star x = y # ys \<Longrightarrow> \<not> special y \<Longrightarrow> x = y \<and> ys = []"
  by (auto simp: quote_star_def special_def split: if_splits)

lemma quote_star_not_Nil [simp]: "quote_star x \<noteq> []"
  by (simp add: quote_star_def)

lemma prefix_2A_G:
  assumes "prefix ''2A'' (quoted_src cs @ t)" and "tail_ok t"
  shows "prefix ''2A'' cs"
proof (cases cs)
  case Nil
  then show ?thesis using assms by (auto simp: tail_ok_def)
next
  case (Cons x cs')
  obtain y ys where q: "quote_star x = y # ys" by (cases "quote_star x") auto
  have "y = CHR ''2''" using assms(1) Cons q by simp
  then have x: "x = CHR ''2''" "ys = []"
    using quote_star_hd[OF q] by (auto simp: special_def)
  then have p: "prefix ''A'' (quoted_src cs' @ t)" using assms(1) Cons q by simp
  show ?thesis
  proof (cases cs')
    case Nil
    then show ?thesis using p assms(2) by (auto simp: tail_ok_def)
  next
    case (Cons x' cs'')
    obtain y' ys' where q': "quote_star x' = y' # ys'" by (cases "quote_star x'") auto
    have "y' = CHR ''A''" using p Cons q' by simp
    then have "x' = CHR ''A''"
      using quote_star_hd[OF q'] by (auto simp: special_def)
    then show ?thesis using x Cons \<open>cs = x # cs'\<close> by simp
  qed
qed

lemma Replace_tail: "tail_ok t \<Longrightarrow> strings_Replace t ''%2A'' [CHR 0x5C, CHR ''*''] = t"
  by (auto simp: tail_ok_def)

lemma Replace_step_plain:
  assumes "\<not> prefix old (c # xs)"
  shows "strings_Replace (c # xs) old new = c # strings_Replace xs old new"
  using assms by (subst strings_Replace.simps) (simp only: simp_thms if_False)

lemma Replace_step_match:
  assumes "old \<noteq> []"
  shows "strings_Replace (old @ xs) old new = new @ strings_Replace xs old new"
proof -
  obtain c cs where o: "old = c # cs" using assms by (cases old) auto
  have "strings_Replace (c # (cs @ xs)) old new
      = new @ strings_Replace (drop (length old - 1) (cs @ xs)) old new"
    by (subst strings_Replace.simps) (simp add: o)
  then show ?thesis by (simp add: o)
qed

lemma H_match: "literal_src (''%2A'' @ r) = [CHR 0x5C, CHR ''*''] @ literal_src r"
  by simp

lemma H_plain: "\<not> prefix ''%2A'' (c # cs) \<Longrightarrow> literal_src (c # cs) = quote_star c @ literal_src cs"
  by auto

lemma Replace_G:
  "tail_ok t \<Longrightarrow> strings_Replace (quoted_src d @ t) ''%2A'' [CHR 0x5C, CHR ''*''] = literal_src d @ t"
proof (induction d rule: literal_src.induct)
  case 1
  then show ?case by (simp add: Replace_tail)
next
  case (2 c cs)
  show ?case
  proof (cases "prefix ''%2A'' (c # cs)")
    case True
    then obtain r where r: "c # cs = ''%2A'' @ r" "drop 2 cs = r"
      by (auto simp: prefix_def)
    have IH: "strings_Replace (quoted_src r @ t) ''%2A'' [CHR 0x5C, CHR ''*''] = literal_src r @ t"
      using 2(1)[OF True 2(3)] r by simp
    have g: "quoted_src (''%2A'' @ r) @ t = ''%2A'' @ (quoted_src r @ t)"
      by (simp add: quote_star_def special_def)
    show ?thesis
      unfolding r(1) g H_match by (subst Replace_step_match) (simp_all add: IH)
  next
    case False
    have IH: "strings_Replace (quoted_src cs @ t) ''%2A'' [CHR 0x5C, CHR ''*''] = literal_src cs @ t"
      using 2(2)[OF False 2(3)] .
    have np: "\<not> prefix ''%2A'' (c # quoted_src cs @ t)"
    proof
      assume a: "prefix ''%2A'' (c # quoted_src cs @ t)"
      then have c: "c = CHR ''%''" and p: "prefix ''2A'' (quoted_src cs @ t)" by auto
      have "prefix ''2A'' cs" using p 2(3) by (rule prefix_2A_G)
      then have "prefix ''%2A'' (c # cs)" using c by simp
      then show False using False by simp
    qed
    have h: "literal_src (c # cs) = quote_star c @ literal_src cs" using False by (rule H_plain)
    have "strings_Replace (quote_star c @ (quoted_src cs @ t)) ''%2A'' [CHR 0x5C, CHR ''*'']
        = quote_star c @ strings_Replace (quoted_src cs @ t) ''%2A'' [CHR 0x5C, CHR ''*'']"
    proof (cases "c = CHR ''*''")
      case True
      then show ?thesis by (simp add: quote_star_def)
    next
      case ns: False
      show ?thesis
      proof (cases "special c")
        case True
        then have "c \<noteq> CHR ''%''" by (auto simp: special_def)
        then show ?thesis using True ns by (simp add: quote_star_def)
      next
        case nsp: False
        then have "quote_star c = [c]" using ns by (simp add: quote_star_def)
        then show ?thesis using Replace_step_plain[OF np] by simp
      qed
    qed
    then show ?thesis unfolding h by (simp add: IH)
  qed
qed

lemma not_hi_seq_len: "\<not> non_ascii c \<Longrightarrow> seq_len c = 1"
  by (simp add: non_ascii_def seq_len_def)

lemma hi_seq_len: "non_ascii c \<Longrightarrow> seq_len c \<noteq> 1"
  by (auto simp: non_ascii_def seq_len_def Let_def)

lemma Decode_ascii: "\<not> non_ascii c \<Longrightarrow> utf8_DecodeRuneInString (c # xs) = (of_char c, 1)"
  by (simp add: not_hi_seq_len)

lemma second_byte_hi: "second_byte_ok c0 c1 \<Longrightarrow> non_ascii c1"
  by (auto simp: second_byte_ok_def non_ascii_def Let_def split: if_splits)

lemma cont_byte_hi: "cont_byte c \<Longrightarrow> non_ascii c"
  by (simp add: cont_byte_def non_ascii_def)

lemma Decode_hi_prefix:
  "non_ascii c \<Longrightarrow>
   utf8_DecodeRuneInString (c # xs) = utf8_DecodeRuneInString (c # take 3 (takeWhile non_ascii xs))"
proof (cases xs)
  case Nil
  then show ?thesis by simp
next
  case (Cons x1 xs1)
  note 1 = this
  show ?thesis
  proof (cases xs1)
    case Nil
    then show ?thesis using 1 by (auto dest: second_byte_hi)
  next
    case (Cons x2 xs2)
    note 2 = this
    show ?thesis
    proof (cases xs2)
      case Nil
      then show ?thesis using 1 2 by (auto dest: second_byte_hi cont_byte_hi)
    next
      case (Cons x3 xs3)
      then show ?thesis using 1 2 by (auto dest: second_byte_hi cont_byte_hi)
    qed
  qed
qed

lemma Decode_hi_valid_len:
  assumes "non_ascii c"
    and "\<not> (fst (utf8_DecodeRuneInString (c # xs)) = RuneError
            \<and> snd (utf8_DecodeRuneInString (c # xs)) = 1)"
  shows "snd (utf8_DecodeRuneInString (c # xs)) - 1 \<le> length (takeWhile non_ascii xs)"
proof (cases xs)
  case Nil
  then show ?thesis using assms by (simp add: hi_seq_len)
next
  case (Cons x1 xs1)
  note 1 = this
  show ?thesis
  proof (cases xs1)
    case Nil
    then show ?thesis using 1 assms
      by (auto simp: hi_seq_len dest: second_byte_hi split: if_splits)
  next
    case (Cons x2 xs2)
    note 2 = this
    show ?thesis
    proof (cases xs2)
      case Nil
      then show ?thesis using 1 2 assms
        by (auto simp: hi_seq_len dest: second_byte_hi cont_byte_hi split: if_splits)
    next
      case (Cons x3 xs3)
      then show ?thesis using 1 2 assms
        by (auto simp: hi_seq_len dest: second_byte_hi cont_byte_hi split: if_splits)
    qed
  qed
qed

declare literal_src.simps(2) [simp del]

lemma hi_not_special: "non_ascii c \<Longrightarrow> \<not> special c"
  by (auto simp: non_ascii_def special_def)

lemma hi_quote_star: "non_ascii c \<Longrightarrow> quote_star c = [c]"
  by (auto simp: quote_star_def hi_not_special non_ascii_def)

lemma H_hi: "non_ascii x \<Longrightarrow> literal_src (x # r) = x # literal_src r"
proof -
  assume h: "non_ascii x"
  then have "x \<noteq> CHR ''%''" by (auto simp: non_ascii_def)
  then have "\<not> prefix ''%2A'' (x # r)" by simp
  then have "literal_src (x # r) = quote_star x @ literal_src r" by (rule H_plain)
  then show ?thesis by (simp only: hi_quote_star[OF h] append_Cons append_Nil)
qed

lemma H_not_hi: "\<not> non_ascii x \<Longrightarrow> \<exists>y ys. literal_src (x # r) @ t = y # ys \<and> \<not> non_ascii y"
  by (auto simp: literal_src.simps(2) non_ascii_def quote_star_def special_def)

lemma takeWhile_hi_H:
  "tail_ok t \<Longrightarrow> takeWhile non_ascii (literal_src r @ t) = takeWhile non_ascii r"
proof (induction r)
  case Nil
  then show ?case by (auto simp: tail_ok_def non_ascii_def)
next
  case (Cons x r)
  show ?case
  proof (cases "non_ascii x")
    case True
    then show ?thesis using Cons by (simp add: H_hi)
  next
    case False
    then obtain y ys where "literal_src (x # r) @ t = y # ys" "\<not> non_ascii y"
      using H_not_hi by blast
    then show ?thesis using False by simp
  qed
qed

lemma H_take_drop:
  "k \<le> length (takeWhile non_ascii r) \<Longrightarrow> literal_src r = take k r @ literal_src (drop k r)"
proof (induction k arbitrary: r)
  case 0
  then show ?case by simp
next
  case (Suc k)
  then obtain x r' where r: "r = x # r'" by (cases r) auto
  then have h: "non_ascii x" using Suc.prems by (auto split: if_splits)
  then have "k \<le> length (takeWhile non_ascii r')" using Suc.prems r by simp
  then have "literal_src r' = take k r' @ literal_src (drop k r')" by (rule Suc.IH)
  then show ?case using r h by (simp add: H_hi)
qed

lemma Decode_hi_H:
  assumes "non_ascii c" and "tail_ok t"
  shows "utf8_DecodeRuneInString (c # literal_src cs @ t) = utf8_DecodeRuneInString (c # cs)"
proof -
  have "utf8_DecodeRuneInString (c # literal_src cs @ t)
      = utf8_DecodeRuneInString (c # take 3 (takeWhile non_ascii (literal_src cs @ t)))"
    using assms(1) by (rule Decode_hi_prefix)
  also have "\<dots> = utf8_DecodeRuneInString (c # take 3 (takeWhile non_ascii cs))"
    by (simp add: takeWhile_hi_H[OF assms(2)])
  also have "\<dots> = utf8_DecodeRuneInString (c # cs)"
    using assms(1) by (rule Decode_hi_prefix[symmetric])
  finally show ?thesis .
qed

lemma special_ascii_punct: "special c \<Longrightarrow> (of_char c :: nat) < 0x80 \<and> \<not> isalnum c"
  by (auto simp: special_def isalnum_def)

lemma special_not_hi: "special c \<Longrightarrow> \<not> non_ascii c"
  using hi_not_special by blast

lemma Compile_star:
  "syntax_Parse (''(?:.*)'' @ X) = re_cons RAnyStar (syntax_Parse X)"
  by simp

lemma Compile_esc:
  "special c \<Longrightarrow>
   syntax_Parse (CHR 0x5C # c # X) = re_cons (RLit (of_char c)) (syntax_Parse X)"
  using special_ascii_punct[of c] by simp

lemma Compile_plain:
  assumes "\<not> special c" and "\<not> non_ascii c"
  shows "syntax_Parse (c # X) = re_cons (RLit (of_char c)) (syntax_Parse X)"
proof -
  have n: "c \<noteq> CHR ''(''" "c \<noteq> CHR ''$''" "c \<noteq> CHR 0x5C"
    using assms(1) by (auto simp: special_def)
  have r: "(of_char c :: nat) \<noteq> RuneError"
    using assms(2) by (simp add: non_ascii_def RuneError_def)
  show ?thesis
    using n r assms by (simp add: Decode_ascii del: utf8_DecodeRuneInString.simps)
qed

lemma Compile_hi:
  assumes "non_ascii c"
  shows "syntax_Parse (c # X) =
     (if fst (utf8_DecodeRuneInString (c # X)) = RuneError
         \<and> snd (utf8_DecodeRuneInString (c # X)) = 1
      then Inl ErrInvalidUTF8
      else re_cons (RLit (fst (utf8_DecodeRuneInString (c # X))))
             (syntax_Parse (drop (snd (utf8_DecodeRuneInString (c # X)) - 1) X)))"
proof -
  have s: "\<not> special c" using assms by (rule hi_not_special)
  then have n: "c \<noteq> CHR ''(''" "c \<noteq> CHR ''$''" "c \<noteq> CHR 0x5C"
    by (auto simp: special_def)
  show ?thesis
    using n s
    by (auto simp add: case_prod_unfold Let_def simp del: utf8_DecodeRuneInString.simps)
qed

lemma valid_ascii_Cons: "\<not> non_ascii c \<Longrightarrow> valid_utf8 (c # cs) = valid_utf8 cs"
  by (simp add: Decode_ascii non_ascii_def RuneError_def del: utf8_DecodeRuneInString.simps)

lemma re_cons_if:
  "re_cons i (if v then Inr xs else Inl e) = (if v then Inr (i # xs) else Inl e)"
  by (simp add: re_cons_def)

declare syntax_Parse.simps(2) [simp del]

declare valid_utf8.simps(2) [simp del]

declare lit_items.simps(2) [simp del]

declare utf8_DecodeRuneInString.simps(2) [simp del]

lemma valid_hi_Cons:
  "valid_utf8 (c # cs) =
     (\<not> (fst (utf8_DecodeRuneInString (c # cs)) = RuneError
          \<and> snd (utf8_DecodeRuneInString (c # cs)) = 1)
      \<and> valid_utf8 (drop (snd (utf8_DecodeRuneInString (c # cs)) - 1) cs))"
  by (rule valid_utf8.simps(2))

lemma lit_items_match: "lit_items (''%2A'' @ r) = RLit 0x2A # lit_items r"
  by (simp add: lit_items.simps(2))

lemma lit_items_star:
  "lit_items (CHR ''*'' # cs) = RAnyStar # lit_items cs"
  by (simp add: lit_items.simps(2))

lemma lit_items_other:
  "\<not> prefix ''%2A'' (c # cs) \<Longrightarrow> c \<noteq> CHR ''*'' \<Longrightarrow>
   lit_items (c # cs) = RLit (fst (utf8_DecodeRuneInString (c # cs)))
             # lit_items (drop (snd (utf8_DecodeRuneInString (c # cs)) - 1) cs)"
  by (subst lit_items.simps(2)) (auto simp del: utf8_DecodeRuneInString.simps)

lemma Compile_H:
  assumes t: "tail_ok t" and ti: "syntax_Parse t = Inr ti"
  shows "syntax_Parse (literal_src d @ t)
       = (if valid_utf8 d then Inr (lit_items d @ ti) else Inl ErrInvalidUTF8)"
proof (induction d rule: lit_items.induct)
  case 1
  then show ?case by (simp add: ti)
next
  case (2 c cs)
  show ?case
  proof (cases "prefix ''%2A'' (c # cs)")
    case True
    then obtain r where r: "c # cs = ''%2A'' @ r" "drop 2 cs = r"
      by (auto simp: prefix_def)
    have IH: "syntax_Parse (literal_src r @ t)
        = (if valid_utf8 r then Inr (lit_items r @ ti) else Inl ErrInvalidUTF8)"
      using 2(1)[OF True] r by simp
    have v: "valid_utf8 (''%2A'' @ r) = valid_utf8 r"
      by (simp add: valid_ascii_Cons non_ascii_def)
    have "syntax_Parse (literal_src (''%2A'' @ r) @ t) = re_cons (RLit 0x2A) (syntax_Parse (literal_src r @ t))"
      unfolding H_match using Compile_esc[of "CHR ''*''" "literal_src r @ t"]
      by (simp add: special_def)
    then show ?thesis
      unfolding r(1) v lit_items_match IH by (auto simp: re_cons_def)
  next
    case np: False
    show ?thesis
    proof (cases "c = CHR ''*''")
      case True
      have IH: "syntax_Parse (literal_src cs @ t)
          = (if valid_utf8 cs then Inr (lit_items cs @ ti) else Inl ErrInvalidUTF8)"
        using 2(2)[OF np True] .
      have h: "literal_src (c # cs) = ''(?:.*)'' @ literal_src cs"
        using H_plain[OF np] True by (simp add: quote_star_def)
      have v: "valid_utf8 (c # cs) = valid_utf8 cs"
        using True by (simp add: valid_ascii_Cons non_ascii_def)
      have cs: "syntax_Parse (literal_src (c # cs) @ t) = re_cons RAnyStar (syntax_Parse (literal_src cs @ t))"
        unfolding h append_assoc by (rule Compile_star)
      have li: "lit_items (c # cs) = RAnyStar # lit_items cs"
        unfolding True by (rule lit_items_star)
      show ?thesis
        unfolding cs v li IH by (auto simp: re_cons_def)
    next
      case ns: False
      let ?n = "snd (utf8_DecodeRuneInString (c # cs))"
      let ?r = "fst (utf8_DecodeRuneInString (c # cs))"
      have IH: "syntax_Parse (literal_src (drop (?n - 1) cs) @ t)
          = (if valid_utf8 (drop (?n - 1) cs) then Inr (lit_items (drop (?n - 1) cs) @ ti)
             else Inl ErrInvalidUTF8)"
        using 2(3)[OF np ns] .
      have li: "lit_items (c # cs) = RLit ?r # lit_items (drop (?n - 1) cs)"
        using np ns by (rule lit_items_other)
      show ?thesis
      proof (cases "non_ascii c")
        case False
        have d: "utf8_DecodeRuneInString (c # cs) = (of_char c, 1)"
          using False by (rule Decode_ascii)
        have v: "valid_utf8 (c # cs) = valid_utf8 cs"
          using False by (rule valid_ascii_Cons)
        have IH': "syntax_Parse (literal_src cs @ t)
          = (if valid_utf8 cs then Inr (lit_items cs @ ti) else Inl ErrInvalidUTF8)"
          using IH unfolding d by simp
        have li': "lit_items (c # cs) = RLit (of_char c) # lit_items cs"
          using li unfolding d by simp
        have "syntax_Parse (literal_src (c # cs) @ t) = re_cons (RLit (of_char c)) (syntax_Parse (literal_src cs @ t))"
        proof (cases "special c")
          case True
          then have "literal_src (c # cs) = CHR 0x5C # c # literal_src cs"
            using H_plain[OF np] ns by (simp add: quote_star_def)
          then show ?thesis using Compile_esc[OF True] by simp
        next
          case nsp: False
          then have "literal_src (c # cs) = c # literal_src cs"
            using H_plain[OF np] ns by (simp add: quote_star_def)
          then show ?thesis using Compile_plain[OF nsp False] by simp
        qed
        then show ?thesis unfolding v li' IH' by (auto simp: re_cons_def)
      next
        case True
        have d: "utf8_DecodeRuneInString (c # literal_src cs @ t) = utf8_DecodeRuneInString (c # cs)"
          using True t by (rule Decode_hi_H)
        have h: "literal_src (c # cs) @ t = c # (literal_src cs @ t)" using True by (simp add: H_hi)
        have cm: "syntax_Parse (literal_src (c # cs) @ t) =
           (if ?r = RuneError \<and> ?n = 1 then Inl ErrInvalidUTF8
            else re_cons (RLit ?r) (syntax_Parse (drop (?n - 1) (literal_src cs @ t))))"
          unfolding h using Compile_hi[OF True, of "literal_src cs @ t"] unfolding d .
        show ?thesis
        proof (cases "?r = RuneError \<and> ?n = 1")
          case bad: True
          then have "\<not> valid_utf8 (c # cs)" by (subst valid_hi_Cons) simp
          then show ?thesis using cm bad by simp
        next
          case ok: False
          have k: "?n - 1 \<le> length (takeWhile non_ascii cs)"
            using True ok by (rule Decode_hi_valid_len)
          have "literal_src cs = take (?n - 1) cs @ literal_src (drop (?n - 1) cs)"
            using k by (rule H_take_drop)
          moreover have "length (take (?n - 1) cs) = ?n - 1"
            using k length_takeWhile_le[of non_ascii cs] by simp
          ultimately have dr: "drop (?n - 1) (literal_src cs @ t) = literal_src (drop (?n - 1) cs) @ t"
            by (metis append_assoc append_eq_conv_conj)
          have v: "valid_utf8 (c # cs) = valid_utf8 (drop (?n - 1) cs)"
            using ok by (subst valid_hi_Cons) simp
          show ?thesis
            using ok unfolding cm dr IH v li by (auto simp: re_cons_def)
        qed
      qed
    qed
  qed
qed

lemma valid_ascii: "\<forall>c \<in> set ys. \<not> non_ascii c \<Longrightarrow> valid_utf8 ys"
  by (induction ys) (simp_all add: valid_ascii_Cons)

lemma takeWhile_hi_append:
  "\<forall>c \<in> set ys. \<not> non_ascii c \<Longrightarrow> takeWhile non_ascii (cs @ ys) = takeWhile non_ascii cs"
proof (induction cs)
  case Nil
  then show ?case by (cases ys) auto
next
  case (Cons c cs)
  then show ?case by simp
qed

lemma valid_append_ascii:
  assumes ys: "\<forall>c \<in> set ys. \<not> non_ascii c"
  shows "valid_utf8 (xs @ ys) = valid_utf8 xs"
proof (induction xs rule: valid_utf8.induct)
  case 1
  then show ?case using valid_ascii[OF ys] by simp
next
  case (2 c cs)
  let ?n = "snd (utf8_DecodeRuneInString (c # cs))"
  have IH: "valid_utf8 (drop (?n - 1) cs @ ys) = valid_utf8 (drop (?n - 1) cs)"
    using 2 .
  show ?case
  proof (cases "non_ascii c")
    case False
    have d: "utf8_DecodeRuneInString (c # cs) = (of_char c, 1)"
      using False by (rule Decode_ascii)
    show ?thesis
      using IH unfolding d by (simp add: valid_ascii_Cons[OF False])
  next
    case True
    have d: "utf8_DecodeRuneInString (c # cs @ ys) = utf8_DecodeRuneInString (c # cs)"
      using Decode_hi_prefix[OF True, of "cs @ ys"] Decode_hi_prefix[OF True, of cs]
      by (simp add: takeWhile_hi_append[OF ys])
    show ?thesis
    proof (cases "fst (utf8_DecodeRuneInString (c # cs)) = RuneError \<and> ?n = 1")
      case bad: True
      have "\<not> valid_utf8 (c # cs)" using bad by (subst valid_hi_Cons) simp
      moreover have "\<not> valid_utf8 (c # cs @ ys)"
        using bad by (subst valid_hi_Cons) (simp add: d)
      ultimately show ?thesis by simp
    next
      case ok: False
      have k: "?n - 1 \<le> length cs"
        using Decode_hi_valid_len[OF True ok] length_takeWhile_le[of non_ascii cs] by simp
      have "valid_utf8 (c # cs @ ys) = valid_utf8 (drop (?n - 1) (cs @ ys))"
        using ok by (subst valid_hi_Cons) (simp add: d)
      also have "\<dots> = valid_utf8 (drop (?n - 1) cs @ ys)" using k by simp
      also have "\<dots> = valid_utf8 (drop (?n - 1) cs)" by (rule IH)
      also have "\<dots> = valid_utf8 (c # cs)"
        using ok by (subst valid_hi_Cons) simp
      finally show ?thesis by simp
    qed
  qed
qed

lemma compilePattern_src: "compilePattern L d = regexp_Compile L (pattern_src d)"
  by (simp add: compilePattern_def pattern_src_def Let_def)

lemma pattern_src_stages:
  "pattern_src d = strings_Replace (suffix_stage (quoted_src d)) ''%2A'' [CHR 0x5C, CHR ''*'']"
  by (simp add: pattern_src_def suffix_stage_def Replace_QuoteMeta Let_def)

lemma Compile_tails:
  "syntax_Parse [] = Inr []"
  "syntax_Parse ''$'' = Inr [REndText]"
  "syntax_Parse [CHR 0x5C, CHR ''$''] = Inr [RLit 0x24]"
  "syntax_Parse ''%24'' = Inr [RLit 0x25, RLit 0x32, RLit 0x34]"
  by (simp_all add: syntax_Parse.simps(2) utf8_DecodeRuneInString.simps(2) re_cons_def
        special_def isalnum_def seq_len_def RuneError_def)

lemma syntax_Parse_src:
  "syntax_Parse (pattern_src d) = (if valid_utf8 d then Inr (pattern_items d) else Inl ErrInvalidUTF8)"
proof -
  have ascii: "\<forall>c \<in> set ''$''. \<not> non_ascii c" "\<forall>c \<in> set ''%24''. \<not> non_ascii c"
    "\<forall>c \<in> set ''%2524''. \<not> non_ascii c"
    by (simp_all add: non_ascii_def)
  consider (a) "suffix ''$'' d"
    | (b) "\<not> suffix ''$'' d" "suffix ''%24'' d"
    | (c) "\<not> suffix ''$'' d" "\<not> suffix ''%24'' d" "suffix ''%2524'' d"
    | (n) "\<not> suffix ''$'' d" "\<not> suffix ''%24'' d" "\<not> suffix ''%2524'' d"
    by blast
  then show ?thesis
  proof cases
    case a
    then obtain d0 where d: "d = d0 @ ''$''" by (auto simp: suffix_def)
    have p: "pattern_items d = lit_items d0 @ [REndText]"
      using a by (simp add: pattern_items_def HasSuffix_iff d)
    have "syntax_Parse (pattern_src d) = syntax_Parse (literal_src d0 @ ''$'')"
      unfolding pattern_src_stages d suffix_stage_dollar
      by (simp add: Replace_G tail_ok_def)
    also have "\<dots> = (if valid_utf8 d0 then Inr (lit_items d0 @ [REndText]) else Inl ErrInvalidUTF8)"
      by (rule Compile_H) (simp_all add: tail_ok_def Compile_tails)
    finally show ?thesis
      unfolding p by (simp add: d valid_append_ascii[OF ascii(1)])
  next
    case b
    then obtain d0 where d: "d = d0 @ ''%24''" by (auto simp: suffix_def)
    have p: "pattern_items d = lit_items d0 @ [RLit 0x24]"
      using b by (simp add: pattern_items_def HasSuffix_iff d)
    have "syntax_Parse (pattern_src d) = syntax_Parse (literal_src d0 @ [CHR 0x5C, CHR ''$''])"
      unfolding pattern_src_stages d suffix_stage_24
      by (simp add: Replace_G tail_ok_def)
    also have "\<dots> = (if valid_utf8 d0 then Inr (lit_items d0 @ [RLit 0x24]) else Inl ErrInvalidUTF8)"
      by (rule Compile_H) (simp_all add: tail_ok_def Compile_tails)
    finally show ?thesis
      unfolding p by (simp add: d valid_append_ascii[OF ascii(2)])
  next
    case c
    then obtain d0 where d: "d = d0 @ ''%2524''" by (auto simp: suffix_def)
    have p: "pattern_items d = lit_items d0 @ [RLit 0x25, RLit 0x32, RLit 0x34]"
      using c by (simp add: pattern_items_def HasSuffix_iff d)
    have "syntax_Parse (pattern_src d) = syntax_Parse (literal_src d0 @ ''%24'')"
      unfolding pattern_src_stages d suffix_stage_2524
      by (simp add: Replace_G tail_ok_def)
    also have "\<dots> = (if valid_utf8 d0 then Inr (lit_items d0 @ [RLit 0x25, RLit 0x32, RLit 0x34])
        else Inl ErrInvalidUTF8)"
      by (rule Compile_H) (simp_all add: tail_ok_def Compile_tails)
    finally show ?thesis
      unfolding p by (simp add: d valid_append_ascii[OF ascii(3)])
  next
    case n
    have p: "pattern_items d = lit_items d"
      using n by (simp add: pattern_items_def HasSuffix_iff)
    have "syntax_Parse (pattern_src d) = syntax_Parse (literal_src d @ [])"
      unfolding pattern_src_stages suffix_stage_none[OF n]
      using Replace_G[of "[]" d] by (simp add: tail_ok_def)
    also have "\<dots> = (if valid_utf8 d then Inr (lit_items d @ []) else Inl ErrInvalidUTF8)"
      by (rule Compile_H) (simp_all add: tail_ok_def Compile_tails)
    finally show ?thesis
      unfolding p by simp
  qed
qed

lemma compilePattern_items:
  "compilePattern L d =
     (if regexp_ErrLarge L (pattern_src d) then Inl ErrLarge
      else if valid_utf8 d then Inr (pattern_items d) else Inl ErrInvalidUTF8)"
  by (simp add: compilePattern_src regexp_Compile_def syntax_Parse_src)

lemma ishex_not_percent: "ishex h \<Longrightarrow> h \<noteq> CHR ''%''"
  by (auto simp: ishex_def)

lemma PathUnescape_keep_star:
  "url_PathUnescape (strings_Replace p ''%2A'' ''%252A'') = unescape_keep_star p"
proof (induction p rule: unescape_keep_star.induct)
  case 1
  then show ?case by simp
next
  case (2 c cs)
  show ?case
  proof (cases "prefix ''%2A'' (c # cs)")
    case True
    then obtain r where r: "c # cs = ''%2A'' @ r" "drop 2 cs = r"
      by (auto simp: prefix_def)
    have IH: "url_PathUnescape (strings_Replace r ''%2A'' ''%252A'') = unescape_keep_star r"
      using 2(1)[OF True] r by simp
    have "strings_Replace (''%2A'' @ r) ''%2A'' ''%252A'' = ''%252A'' @ strings_Replace r ''%2A'' ''%252A''"
      by (rule Replace_step_match) simp
    then have "url_PathUnescape (strings_Replace (c # cs) ''%2A'' ''%252A'')
        = map_option ((@) ''%2A'') (url_PathUnescape (strings_Replace r ''%2A'' ''%252A''))"
      unfolding r(1)
      by (cases "url_PathUnescape (strings_Replace r ''%2A'' ''%252A'')")
         (simp_all add: ishex_def unhex_def char_of_def bit_0)
    then show ?thesis using True r IH by simp
  next
    case np: False
    have rp: "strings_Replace (c # cs) ''%2A'' ''%252A'' = c # strings_Replace cs ''%2A'' ''%252A''"
      using np by (rule Replace_step_plain)
    show ?thesis
    proof (cases "c = CHR ''%''")
      case False
      have IH: "url_PathUnescape (strings_Replace cs ''%2A'' ''%252A'') = unescape_keep_star cs"
        using 2(3)[OF np False] .
      show ?thesis using np False IH unfolding rp by simp
    next
      case True
      show ?thesis
      proof (cases cs)
        case Nil
        then show ?thesis using True by simp
      next
        case (Cons h1 cs1)
        note c1 = this
        show ?thesis
        proof (cases "ishex h1")
          case False
          have "\<exists>y ys. strings_Replace cs ''%2A'' ''%252A'' = y # ys \<and> \<not> ishex y"
          proof (cases "prefix ''%2A'' cs")
            case True
            then show ?thesis using c1 by (auto simp: ishex_def)
          next
            case False
            then show ?thesis using c1 \<open>\<not> ishex h1\<close> Replace_step_plain[of "''%2A''" h1 cs1]
              by simp
          qed
          then obtain y ys where y: "strings_Replace cs ''%2A'' ''%252A'' = y # ys" "\<not> ishex y"
            by blast
          have L: "url_PathUnescape (CHR ''%'' # y # ys) = None"
            using y(2) by (cases ys) simp_all
          have R: "unescape_keep_star (c # cs) = None"
            using True c1 False np by (cases cs1) auto
          show ?thesis unfolding rp y(1) R using True L by simp
        next
          case h1: True
          then have r1: "strings_Replace cs ''%2A'' ''%252A'' = h1 # strings_Replace cs1 ''%2A'' ''%252A''"
            using c1 ishex_not_percent[OF h1] Replace_step_plain[of "''%2A''" h1 cs1] by simp
          show ?thesis
          proof (cases cs1)
            case Nil
            then show ?thesis using True c1 np unfolding rp r1 by simp
          next
            case (Cons h2 rest)
            note c2 = this
            show ?thesis
            proof (cases "ishex h2")
              case False
              have "\<exists>y ys. strings_Replace cs1 ''%2A'' ''%252A'' = y # ys \<and> \<not> ishex y"
              proof (cases "prefix ''%2A'' cs1")
                case True
                then show ?thesis using c2 by (auto simp: ishex_def)
              next
                case False
                then show ?thesis using c2 \<open>\<not> ishex h2\<close> Replace_step_plain[of "''%2A''" h2 rest]
                  by simp
              qed
              then obtain y ys where y: "strings_Replace cs1 ''%2A'' ''%252A'' = y # ys" "\<not> ishex y"
                by blast
              have L: "url_PathUnescape (CHR ''%'' # h1 # y # ys) = None"
                using y(2) by simp
              have R: "unescape_keep_star (c # cs) = None"
                using True c1 c2 False np by auto
              show ?thesis unfolding rp r1 y(1) R using True L by simp
            next
              case h2: True
              then have r2: "strings_Replace cs1 ''%2A'' ''%252A'' = h2 # strings_Replace rest ''%2A'' ''%252A''"
                using c2 ishex_not_percent[OF h2] Replace_step_plain[of "''%2A''" h2 rest] by simp
              have IH: "url_PathUnescape (strings_Replace rest ''%2A'' ''%252A'') = unescape_keep_star rest"
                using 2(2)[OF np True c1 c2] h1 h2 by simp
              show ?thesis
                using True c1 c2 h1 h2 np IH unfolding rp r1 r2 by auto
            qed
          qed
        qed
      qed
    qed
  qed
qed

declare syntax_Parse.simps(2) [simp]
declare valid_utf8.simps(2) [simp]
declare lit_items.simps(2) [simp]
declare utf8_DecodeRuneInString.simps(2) [simp]

section \<open>Patterns that compile, and patterns that do not\<close>

lemma new_rules_pattern:
  "isPattern p0 \<Longrightarrow>
   new_rules L p0 b =
     (if valid_utf8 (decode_path p0) \<and> \<not> regexp_ErrLarge L (pattern_src (decode_path p0))
      then [\<lparr>isAllowed = b, path = [], pattern = Some (pattern_items (decode_path p0))\<rparr>]
      else [])"
  by (simp add: new_rules_def compilePattern_items)

lemma new_rules_literal:
  "\<not> isPattern p0 \<Longrightarrow>
   new_rules L p0 b = [\<lparr>isAllowed = b, path = decode_path p0, pattern = None\<rparr>]"
  by (simp add: new_rules_def)

lemma addPathRule_error:
  "snd (addPathRule L r a p0 b) =
     (if isPattern p0 then
        (if regexp_ErrLarge L (pattern_src (decode_path p0)) then Some ErrLarge
         else if valid_utf8 (decode_path p0) then None else Some ErrInvalidUTF8)
      else None)"
proof -
  have "addPathRule L r a p0 b =
     (let g = get_group r a in
      if isPattern p0 then
        (case compilePattern L (decode_path p0) of
           Inl err \<Rightarrow> (put_group r a g, Some err)
         | Inr re \<Rightarrow>
             (put_group r a
                (g\<lparr>rules := rules g @ [\<lparr>isAllowed = b, path = [], pattern = Some re\<rparr>]\<rparr>), None))
      else
        (put_group r a
           (g\<lparr>rules := rules g @ [\<lparr>isAllowed = b, path = decode_path p0, pattern = None\<rparr>]\<rparr>),
         None))"
    by (simp add: addPathRule_def decode_path_def Let_def)
  then show ?thesis by (simp add: compilePattern_items Let_def)
qed

text \<open>
  Claim C10, amended. The text that \<open>compilePattern\<close> writes is always valid syntax:
  on a path that is valid UTF-8 the parser answers the items of \<open>pattern_items\<close>, and
  on any other path it reports invalid UTF-8; no other error of the parser can occur.
  \<open>compilePattern\<close> therefore fails in exactly two cases: the library refuses the
  expression for its size, or the path is not valid UTF-8. In both \<open>addPathRule\<close>
  returns the error and the directive adds no rule; in every other case it returns no
  error and adds one rule.
\<close>

theorem compilePattern_error_cases:
  "syntax_Parse (pattern_src d)
     = (if valid_utf8 d then Inr (pattern_items d) else Inl ErrInvalidUTF8)
   \<and> compilePattern L d
     = (if regexp_ErrLarge L (pattern_src d) then Inl ErrLarge
        else if valid_utf8 d then Inr (pattern_items d) else Inl ErrInvalidUTF8)
   \<and> snd (addPathRule L r a p0 b)
     = (if isPattern p0 then
          (if regexp_ErrLarge L (pattern_src (decode_path p0)) then Some ErrLarge
           else if valid_utf8 (decode_path p0) then None else Some ErrInvalidUTF8)
        else None)
   \<and> (new_rules L p0 b = [] \<longleftrightarrow>
        isPattern p0 \<and> (regexp_ErrLarge L (pattern_src (decode_path p0))
                        \<or> \<not> valid_utf8 (decode_path p0)))
   \<and> length (new_rules L p0 b) \<le> 1"
proof -
  have n: "new_rules L p0 b = [] \<longleftrightarrow>
        isPattern p0 \<and> (regexp_ErrLarge L (pattern_src (decode_path p0))
                        \<or> \<not> valid_utf8 (decode_path p0))"
    by (cases "isPattern p0") (auto simp: new_rules_pattern new_rules_literal)
  have l: "length (new_rules L p0 b) \<le> 1"
    by (cases "isPattern p0") (auto simp: new_rules_pattern new_rules_literal)
  show ?thesis
    using n l by (simp add: syntax_Parse_src compilePattern_items addPathRule_error)
qed

text \<open>An instance: \<open>/fish*.php\<close> is valid UTF-8 and short, and compiles.\<close>

theorem compilePattern_error_cases_witness:
  "valid_utf8 ''/fish*.php''
   \<and> pattern_src ''/fish*.php'' = ''/fish(?:.*)'' @ CHR 0x5C # ''.php''
   \<and> \<not> regexp_ErrLarge sample_lib (pattern_src ''/fish*.php'')
   \<and> compilePattern sample_lib ''/fish*.php''
     = Inr [RLit 47, RLit 102, RLit 105, RLit 115, RLit 104, RAnyStar,
            RLit 46, RLit 112, RLit 104, RLit 112]"
proof -
  have v: "valid_utf8 ''/fish*.php''"
    by (simp add: seq_len_def RuneError_def)
  have s: "pattern_src ''/fish*.php'' = ''/fish(?:.*)'' @ CHR 0x5C # ''.php''"
    by (simp add: pattern_src_def regexp_QuoteMeta_def special_def replaceSuffix_def
          strings_HasSuffix_def)
  have e: "\<not> regexp_ErrLarge sample_lib (pattern_src ''/fish*.php'')"
    unfolding s by (simp add: lib_defs)
  have p: "pattern_items ''/fish*.php''
     = [RLit 47, RLit 102, RLit 105, RLit 115, RLit 104, RAnyStar,
        RLit 46, RLit 112, RLit 104, RLit 112]"
    by (simp add: pattern_items_def strings_HasSuffix_def seq_len_def)
  show ?thesis
    using v s e p compilePattern_error_cases [of "''/fish*.php''" sample_lib] by simp
qed

text \<open>Claim C10 as stated fails: \<open>/%FF*\<close> is a pattern whose decoded form holds the
  byte \<open>0xFF\<close>, which is not UTF-8; the pattern does not compile and no rule is stored.\<close>

theorem invalid_utf8_pattern_counterexample:
  "isPattern ''/%FF*''
   \<and> decode_path ''/%FF*'' = [CHR ''/'', CHR 0xFF, CHR ''*'']
   \<and> compilePattern sample_lib [CHR ''/'', CHR 0xFF, CHR ''*''] = Inl ErrInvalidUTF8
   \<and> snd (addPathRule sample_lib \<lparr>url = example_url, groups = Map.empty, sitemaps = [], host = []\<rparr>
          ''a'' ''/%FF*'' False) = Some ErrInvalidUTF8
   \<and> new_rules sample_lib ''/%FF*'' False = []"
  by (simp add: rule_defs lib_defs regexp_Compile_def addPathRule_def get_group_def put_group_def Let_def)

section \<open>Escaped asterisks and dollars\<close>

lemma decode_path_keep_star:
  "decode_path p0 =
     (let p1 = (if isPattern p0 then replaceSuffix p0 ''%24'' ''%2524'' else p0) in
      case unescape_keep_star p1 of
        Some d \<Rightarrow> d
      | None \<Rightarrow> strings_Replace (strings_Replace p1 ''%2A'' ''%252A'') ''%252A'' ''%2A'')"
  by (simp add: decode_path_def PathUnescape_keep_star Let_def)

declare syntax_Parse.simps(2) [simp del]
declare valid_utf8.simps(2) [simp del]
declare lit_items.simps(2) [simp del]
declare utf8_DecodeRuneInString.simps(2) [simp del]

lemma takeWhile_token_start:
  "token_start ys \<Longrightarrow> takeWhile non_ascii (cs @ ys) = takeWhile non_ascii cs"
  by (induction cs) (auto simp: token_start_def non_ascii_def takeWhile_eq_Nil_iff
        intro!: takeWhile_eq_Nil_iff[THEN iffD2] dest: hd_in_set)

lemma not_prefix_token_start:
  assumes "token_start ys" "\<not> prefix ''%2A'' (c # cs)"
  shows "\<not> prefix ''%2A'' (c # cs @ ys)"
proof (cases cs)
  case Nil
  then show ?thesis using assms by (cases ys) (auto simp: token_start_def)
next
  case (Cons x xs)
  then show ?thesis using assms by (cases xs; cases ys) (auto simp: token_start_def)
qed

lemma lit_items_append:
  assumes ts: "token_start ys"
  shows "lit_items (a @ ys) = lit_items a @ lit_items ys"
proof (induction a rule: lit_items.induct)
  case 1
  show ?case by simp
next
  case (2 c cs)
  show ?case
  proof (cases "prefix ''%2A'' (c # cs)")
    case True
    then obtain s where s: "c # cs = ''%2A'' @ s" "drop 2 cs = s"
      by (auto simp: prefix_def)
    have IH: "lit_items (s @ ys) = lit_items s @ lit_items ys"
      using 2(1)[OF True] s by simp
    have "lit_items ((c # cs) @ ys) = RLit 0x2A # lit_items (s @ ys)"
      unfolding s(1) using lit_items_match[of "s @ ys"] by simp
    moreover have "lit_items (c # cs) = RLit 0x2A # lit_items s"
      unfolding s(1) by (rule lit_items_match)
    ultimately show ?thesis using IH by simp
  next
    case np: False
    show ?thesis
    proof (cases "c = CHR ''*''")
      case True
      have "lit_items (cs @ ys) = lit_items cs @ lit_items ys"
        using 2(2)[OF np True] .
      then show ?thesis using True by (simp add: lit_items_star)
    next
      case ns: False
      let ?n = "snd (utf8_DecodeRuneInString (c # cs))"
      have IH: "lit_items (drop (?n - 1) cs @ ys)
          = lit_items (drop (?n - 1) cs) @ lit_items ys"
        using 2(3)[OF np ns] .
      have np': "\<not> prefix ''%2A'' (c # cs @ ys)"
        using ts np by (rule not_prefix_token_start)
      have tw: "takeWhile non_ascii (cs @ ys) = takeWhile non_ascii cs"
        using ts by (rule takeWhile_token_start)
      have d: "utf8_DecodeRuneInString (c # cs @ ys) = utf8_DecodeRuneInString (c # cs)"
      proof (cases "non_ascii c")
        case True
        show ?thesis
          using Decode_hi_prefix[OF True, of "cs @ ys"] Decode_hi_prefix[OF True, of cs]
          by (simp only: tw)
      next
        case False
        then show ?thesis by (simp add: Decode_ascii)
      qed
      have k: "?n - 1 \<le> length cs"
      proof (cases "non_ascii c")
        case False
        then show ?thesis by (simp add: Decode_ascii)
      next
        case True
        show ?thesis
        proof (cases "fst (utf8_DecodeRuneInString (c # cs)) = RuneError \<and> ?n = 1")
          case True
          then show ?thesis by simp
        next
          case False
          then show ?thesis
            using Decode_hi_valid_len[OF True False] length_takeWhile_le[of non_ascii cs]
            by simp
        qed
      qed
      have "lit_items ((c # cs) @ ys)
          = RLit (fst (utf8_DecodeRuneInString (c # cs)))
              # lit_items (drop (?n - 1) (cs @ ys))"
        using lit_items_other[OF np' ns] unfolding d by simp
      also have "drop (?n - 1) (cs @ ys) = drop (?n - 1) cs @ ys" using k by simp
      finally show ?thesis
        unfolding IH using lit_items_other[OF np ns] by simp
    qed
  qed
qed

lemma lit_items_dollar: "lit_items (CHR ''$'' # r) = RLit 0x24 # lit_items r"
  by (subst lit_items.simps(2)) (simp add: Decode_ascii non_ascii_def)

lemma lit_items_24: "lit_items (''%24'' @ r) = RLit 0x25 # RLit 0x32 # RLit 0x34 # lit_items r"
  by (simp add: lit_items.simps(2) Decode_ascii non_ascii_def)

lemma pattern_items_dollar: "pattern_items (d0 @ ''$'') = lit_items d0 @ [REndText]"
  by (simp add: pattern_items_def HasSuffix_iff)

lemma pattern_items_24: "pattern_items (d0 @ ''%24'') = lit_items d0 @ [RLit 0x24]"
  by (simp add: pattern_items_def HasSuffix_iff suffix_def)

lemma pattern_items_2524:
  "pattern_items (d0 @ ''%2524'') = lit_items d0 @ [RLit 0x25, RLit 0x32, RLit 0x34]"
  by (simp add: pattern_items_def HasSuffix_iff suffix_def)

lemma pattern_items_none:
  "\<not> suffix ''$'' d \<Longrightarrow> \<not> suffix ''%24'' d \<Longrightarrow> \<not> suffix ''%2524'' d \<Longrightarrow>
   pattern_items d = lit_items d"
  by (simp add: pattern_items_def HasSuffix_iff)

lemma suffix_token_start:
  assumes "token_start ys" "ys \<noteq> []" "s = ''$'' \<or> s = ''%24'' \<or> s = ''%2524''"
  shows "suffix s (a @ ys) \<longleftrightarrow> suffix s ys"
proof
  assume "suffix s ys"
  then show "suffix s (a @ ys)" by (simp add: suffix_appendI)
next
  assume "suffix s (a @ ys)"
  then obtain z where z: "a @ ys = z @ s" by (auto simp: suffix_def)
  then obtain us where "(a = z @ us \<and> us @ ys = s) \<or> (a @ us = z \<and> ys = us @ s)"
    unfolding append_eq_append_conv2 by blast
  then consider (1) "ys = us @ s" | (2) "us @ ys = s" by blast
  then show "suffix s ys"
  proof cases
    case 1
    then show ?thesis by (simp add: suffix_def)
  next
    case 2
    show ?thesis
    proof (cases us)
      case Nil
      then show ?thesis using 2 by simp
    next
      case (Cons x xs)
      obtain y ys' where y: "ys = y # ys'" "y = CHR ''%'' \<or> y = CHR ''$''"
        using assms(1,2) by (cases ys) (auto simp: token_start_def)
      have "tl s = xs @ y # ys'" using 2 Cons y by auto
      then have "y \<in> set (tl s)" by simp
      then show ?thesis using assms(3) y(2) by auto
    qed
  qed
qed

lemma pattern_items_append:
  assumes ts: "token_start ys" and ne: "ys \<noteq> []"
  shows "pattern_items (a @ ys) = lit_items a @ pattern_items ys"
proof -
  have ts0: "token_start y0" if "ys = y0 @ s" for y0 s
    using that ts by (cases y0) (auto simp: token_start_def)
  consider (a) "suffix ''$'' ys"
    | (b) "\<not> suffix ''$'' ys" "suffix ''%24'' ys"
    | (c) "\<not> suffix ''$'' ys" "\<not> suffix ''%24'' ys" "suffix ''%2524'' ys"
    | (n) "\<not> suffix ''$'' ys" "\<not> suffix ''%24'' ys" "\<not> suffix ''%2524'' ys"
    by blast
  then show ?thesis
  proof cases
    case a
    then obtain y0 where y: "ys = y0 @ ''$''" by (auto simp: suffix_def)
    show ?thesis
      unfolding y using pattern_items_dollar[of "a @ y0"] pattern_items_dollar[of y0]
        lit_items_append[OF ts0[OF y], of a] by simp
  next
    case b
    then obtain y0 where y: "ys = y0 @ ''%24''" by (auto simp: suffix_def)
    show ?thesis
      unfolding y using pattern_items_24[of "a @ y0"] pattern_items_24[of y0]
        lit_items_append[OF ts0[OF y], of a] by simp
  next
    case c
    then obtain y0 where y: "ys = y0 @ ''%2524''" by (auto simp: suffix_def)
    show ?thesis
      unfolding y using pattern_items_2524[of "a @ y0"] pattern_items_2524[of y0]
        lit_items_append[OF ts0[OF y], of a] by simp
  next
    case n
    have "\<not> suffix ''$'' (a @ ys)" "\<not> suffix ''%24'' (a @ ys)" "\<not> suffix ''%2524'' (a @ ys)"
      using n suffix_token_start[OF ts ne] by simp_all
    then show ?thesis
      using n by (simp add: pattern_items_none lit_items_append[OF ts])
  qed
qed

lemma pattern_items_front:
  assumes l: "\<And>y. lit_items (T @ y) = I @ lit_items y"
    and s: "\<And>s. s = ''$'' \<or> s = ''%24'' \<or> s = ''%2524'' \<Longrightarrow> suffix s (T @ d) \<longleftrightarrow> suffix s d"
  shows "pattern_items (T @ d) = I @ pattern_items d"
proof -
  consider (a) "suffix ''$'' d"
    | (b) "\<not> suffix ''$'' d" "suffix ''%24'' d"
    | (c) "\<not> suffix ''$'' d" "\<not> suffix ''%24'' d" "suffix ''%2524'' d"
    | (n) "\<not> suffix ''$'' d" "\<not> suffix ''%24'' d" "\<not> suffix ''%2524'' d"
    by blast
  then show ?thesis
  proof cases
    case a
    then obtain y0 where y: "d = y0 @ ''$''" by (auto simp: suffix_def)
    show ?thesis
      unfolding y using pattern_items_dollar[of "T @ y0"] pattern_items_dollar[of y0] l[of y0]
      by simp
  next
    case b
    then obtain y0 where y: "d = y0 @ ''%24''" by (auto simp: suffix_def)
    show ?thesis
      unfolding y using pattern_items_24[of "T @ y0"] pattern_items_24[of y0] l[of y0]
      by simp
  next
    case c
    then obtain y0 where y: "d = y0 @ ''%2524''" by (auto simp: suffix_def)
    show ?thesis
      unfolding y using pattern_items_2524[of "T @ y0"] pattern_items_2524[of y0] l[of y0]
      by simp
  next
    case n
    have "\<not> suffix ''$'' (T @ d)" "\<not> suffix ''%24'' (T @ d)" "\<not> suffix ''%2524'' (T @ d)"
      using n s by simp_all
    then show ?thesis
      using n l[of d] by (simp add: pattern_items_none)
  qed
qed

lemma pattern_items_star_token:
  "pattern_items (a @ ''%2A'' @ d) = lit_items a @ RLit 0x2A # pattern_items d"
proof -
  have l: "\<And>y. lit_items (''%2A'' @ y) = [RLit 0x2A] @ lit_items y"
    using lit_items_match by simp
  have "pattern_items (''%2A'' @ d) = [RLit 0x2A] @ pattern_items d"
    by (rule pattern_items_front[OF l]) (auto simp: suffix_Cons)
  then show ?thesis
    using pattern_items_append[of "''%2A'' @ d" a] by (simp add: token_start_def)
qed

lemma pattern_items_dollar_token:
  assumes "d \<noteq> []"
  shows "pattern_items (a @ ''$'' @ d) = lit_items a @ RLit 0x24 # pattern_items d"
proof -
  have l: "\<And>y. lit_items (''$'' @ y) = [RLit 0x24] @ lit_items y"
    using lit_items_dollar by simp
  have "pattern_items (''$'' @ d) = [RLit 0x24] @ pattern_items d"
    using assms by (intro pattern_items_front[OF l]) (auto simp: suffix_Cons)
  then show ?thesis
    using pattern_items_append[of "''$'' @ d" a] by (simp add: token_start_def)
qed

lemma pattern_items_24_token:
  assumes "d \<noteq> []"
  shows "pattern_items (a @ ''%24'' @ d)
     = lit_items a @ RLit 0x25 # RLit 0x32 # RLit 0x34 # pattern_items d"
proof -
  have l: "\<And>y. lit_items (''%24'' @ y) = [RLit 0x25, RLit 0x32, RLit 0x34] @ lit_items y"
    using lit_items_24 by simp
  have "pattern_items (''%24'' @ d) = [RLit 0x25, RLit 0x32, RLit 0x34] @ pattern_items d"
    using assms by (intro pattern_items_front[OF l]) (auto simp: suffix_Cons)
  then show ?thesis
    using pattern_items_append[of "''%24'' @ d" a] by (simp add: token_start_def)
qed



lemma unescape_keep_star_append:
  "unescape_keep_star a = Some a' \<Longrightarrow>
   unescape_keep_star (a @ rest) = map_option ((@) a') (unescape_keep_star rest)"
proof (induction a arbitrary: a' rule: unescape_keep_star.induct)
  case 1
  then show ?case by (cases "unescape_keep_star rest") simp_all
next
  case (2 c cs)
  show ?case
  proof (cases "prefix ''%2A'' (c # cs)")
    case True
    then obtain s where s: "c # cs = ''%2A'' @ s" "drop 2 cs = s"
      by (auto simp: prefix_def)
    from 2(4) obtain s' where s': "unescape_keep_star s = Some s'" "a' = ''%2A'' @ s'"
      unfolding s(1) by auto
    have "unescape_keep_star (s @ rest) = map_option ((@) s') (unescape_keep_star rest)"
      using 2(1)[OF True] s s'(1) by simp
    then show ?thesis
      unfolding s(1) s'(2) by (cases "unescape_keep_star rest") simp_all
  next
    case np: False
    show ?thesis
    proof (cases "c = CHR ''%''")
      case False
      from 2(4) obtain s' where s': "unescape_keep_star cs = Some s'" "a' = c # s'"
        using np False by auto
      have "unescape_keep_star (cs @ rest) = map_option ((@) s') (unescape_keep_star rest)"
        using 2(3)[OF np False s'(1)] .
      then show ?thesis
        using False s'(2) by (cases "unescape_keep_star rest") simp_all
    next
      case True
      from 2(4) obtain h1 h2 tl' where c: "cs = h1 # h2 # tl'" "ishex h1" "ishex h2"
        using np True by (auto split: list.splits if_splits)
      from 2(4) obtain s' where s': "unescape_keep_star tl' = Some s'"
          "a' = char_of (unhex h1 * 16 + unhex h2) # s'"
        using np True c by auto
      have IH: "unescape_keep_star (tl' @ rest) = map_option ((@) s') (unescape_keep_star rest)"
        using 2(2)[of h1 "h2 # tl'" h2 tl' s'] np True c s'(1) by simp
      have np': "\<not> prefix ''%2A'' (c # cs @ rest)" using np c by auto
      show ?thesis
        using True c IH np' s'(2) np
        by (cases "unescape_keep_star rest") auto
    qed
  qed
qed

lemma lit_items_wildcard:
  "RAnyStar \<in> set (lit_items d) \<Longrightarrow> CHR ''*'' \<in> set d"
proof (induction d rule: lit_items.induct)
  case 1
  then show ?case by simp
next
  case (2 c cs)
  show ?case
  proof (cases "prefix ''%2A'' (c # cs)")
    case True
    then have "RAnyStar \<in> set (lit_items (drop 2 cs))"
      using 2(4) by (subst (asm) lit_items.simps(2)) simp
    then have "CHR ''*'' \<in> set (drop 2 cs)" using 2(1)[OF True] by blast
    then show ?thesis by (auto dest: in_set_dropD)
  next
    case np: False
    show ?thesis
    proof (cases "c = CHR ''*''")
      case True
      then show ?thesis by simp
    next
      case False
      let ?n = "snd (utf8_DecodeRuneInString (c # cs))"
      have "lit_items (c # cs) = RLit (fst (utf8_DecodeRuneInString (c # cs)))
             # lit_items (drop (?n - 1) cs)"
        using np False by (rule lit_items_other)
      then have "RAnyStar \<in> set (lit_items (drop (?n - 1) cs))"
        using 2(4) by simp
      then have "CHR ''*'' \<in> set (drop (?n - 1) cs)" using 2(3)[OF np False] by blast
      then show ?thesis by (auto dest: in_set_dropD)
    qed
  qed
qed

lemma lit_items_no_anchor: "REndText \<notin> set (lit_items d)"
proof (induction d rule: lit_items.induct)
  case 1
  then show ?case by simp
next
  case (2 c cs)
  show ?case
  proof (cases "prefix ''%2A'' (c # cs)")
    case True
    then show ?thesis using 2(1)[OF True] by (subst lit_items.simps(2)) simp
  next
    case np: False
    show ?thesis
    proof (cases "c = CHR ''*''")
      case True
      then show ?thesis using 2(2)[OF np True] np by (subst lit_items.simps(2)) simp
    next
      case False
      then show ?thesis using 2(3)[OF np False] by (simp add: lit_items_other[OF np False])
    qed
  qed
qed

lemma pattern_items_wildcard:
  "RAnyStar \<in> set (pattern_items d) \<Longrightarrow> CHR ''*'' \<in> set d"
  by (auto simp: pattern_items_def split: if_splits dest!: lit_items_wildcard dest: in_set_takeD)

lemma pattern_items_anchor:
  "REndText \<in> set (pattern_items d) \<longleftrightarrow> strings_HasSuffix d ''$''"
  by (simp add: pattern_items_def lit_items_no_anchor)

lemma prefix_append_cases:
  "prefix o' (cs @ r) \<Longrightarrow> \<not> prefix o' cs \<Longrightarrow> r \<noteq> [] \<and> hd r \<in> set o'"
proof -
  assume p: "prefix o' (cs @ r)" and n: "\<not> prefix o' cs"
  from p obtain z where z: "cs @ r = o' @ z" by (auto simp: prefix_def)
  have l: "length cs < length o'"
  proof (rule ccontr)
    assume "\<not> length cs < length o'"
    then have "take (length o') (cs @ r) = take (length o') cs" by simp
    then have "o' = take (length o') cs" using z by simp
    then have "prefix o' cs" by (metis take_is_prefix)
    then show False using n by simp
  qed
  then have r: "r \<noteq> []" using z
    by (metis append_Nil2 append_eq_append_conv_if length_append less_imp_le_nat n prefixI
        append_take_drop_id)
  have "o' ! length cs = (cs @ r) ! length cs" using z l by (simp add: nth_append)
  also have "\<dots> = hd r" using r by (simp add: nth_append hd_conv_nth)
  finally have "hd r = o' ! length cs" by simp
  then show ?thesis using r l by (metis nth_mem)
qed

lemma Replace_append_percent:
  assumes o: "old = CHR ''%'' # o'" and n: "CHR ''%'' \<notin> set o'"
    and r: "r = [] \<or> hd r = CHR ''%''"
  shows "strings_Replace (a @ r) old new = strings_Replace a old new @ strings_Replace r old new"
proof (induction a rule: length_induct)
  case (1 a)
  show ?case
  proof (cases a)
    case Nil
    then show ?thesis by simp
  next
    case (Cons c cs)
    show ?thesis
    proof (cases "prefix old (c # cs)")
      case True
      then obtain z where z: "c # cs = old @ z" by (auto simp: prefix_def)
      have lz: "length z < length a" using z Cons o by (metis length_Cons length_append
            add.commute add_Suc_right less_add_Suc2 list.size(4) trans_less_add2)
      have A: "strings_Replace (a @ r) old new = new @ strings_Replace (z @ r) old new"
        unfolding Cons z using Replace_step_match[of old "z @ r" new] o by simp
      have B: "strings_Replace (z @ r) old new
          = strings_Replace z old new @ strings_Replace r old new"
        using 1 lz by blast
      have C: "strings_Replace a old new = new @ strings_Replace z old new"
        unfolding Cons z using Replace_step_match[of old z new] o by simp
      show ?thesis unfolding A B C by simp
    next
      case False
      have np: "\<not> prefix old (c # cs @ r)"
      proof
        assume p: "prefix old (c # cs @ r)"
        then have c: "c = CHR ''%''" and p': "prefix o' (cs @ r)" using o by auto
        have "\<not> prefix o' cs" using False c o by simp
        then have "r \<noteq> [] \<and> hd r \<in> set o'" using p' by (rule prefix_append_cases[rotated])
        then show False using r n by auto
      qed
      have A: "strings_Replace (a @ r) old new = c # strings_Replace (cs @ r) old new"
        unfolding Cons using Replace_step_plain[OF np] by simp
      have B: "strings_Replace (cs @ r) old new
          = strings_Replace cs old new @ strings_Replace r old new"
        using 1 Cons by simp
      have C: "strings_Replace a old new = c # strings_Replace cs old new"
        unfolding Cons using Replace_step_plain[OF False] by simp
      show ?thesis unfolding A B C by simp
    qed
  qed
qed

lemma restore_star_2A: "restore_star (a @ ''%2A'' @ d) = restore_star a @ ''%2A'' @ restore_star d"
proof -
  have 1: "strings_Replace (a @ ''%2A'' @ d) ''%2A'' ''%252A''
      = strings_Replace a ''%2A'' ''%252A'' @ ''%252A'' @ strings_Replace d ''%2A'' ''%252A''"
    using Replace_append_percent[of "''%2A''" "''2A''" "''%2A'' @ d" a "''%252A''"]
      Replace_step_match[of "''%2A''" d "''%252A''"] by simp
  show ?thesis
    unfolding restore_star_def 1
    using Replace_append_percent[of "''%252A''" "''252A''"
        "''%252A'' @ strings_Replace d ''%2A'' ''%252A''" "strings_Replace a ''%2A'' ''%252A''" "''%2A''"]
      Replace_step_match[of "''%252A''" "strings_Replace d ''%2A'' ''%252A''" "''%2A''"] by simp
qed

lemma restore_star_24: "restore_star (a @ ''%24'' @ d) = restore_star a @ ''%24'' @ restore_star d"
proof -
  have 1: "strings_Replace (a @ ''%24'' @ d) ''%2A'' ''%252A''
      = strings_Replace a ''%2A'' ''%252A'' @ ''%24'' @ strings_Replace d ''%2A'' ''%252A''"
    using Replace_append_percent[of "''%2A''" "''2A''" "''%24'' @ d" a "''%252A''"] by simp
  show ?thesis
    unfolding restore_star_def 1
    using Replace_append_percent[of "''%252A''" "''252A''"
        "''%24'' @ strings_Replace d ''%2A'' ''%252A''" "strings_Replace a ''%2A'' ''%252A''" "''%2A''"]
    by simp
qed

lemma restore_star_2524: "restore_star (a @ ''%2524'') = restore_star a @ ''%2524''"
proof -
  have 1: "strings_Replace (a @ ''%2524'') ''%2A'' ''%252A''
      = strings_Replace a ''%2A'' ''%252A'' @ ''%2524''"
    using Replace_append_percent[of "''%2A''" "''2A''" "''%2524''" a "''%252A''"] by simp
  show ?thesis
    unfolding restore_star_def 1
    using Replace_append_percent[of "''%252A''" "''252A''"
        "''%2524''" "strings_Replace a ''%2A'' ''%252A''" "''%2A''"]
    by simp
qed


lemma unescape_None_append:
  "unescape_keep_star a = None \<Longrightarrow> r = [] \<or> \<not> ishex (hd r) \<Longrightarrow>
   unescape_keep_star (a @ r) = None"
proof (induction a rule: unescape_keep_star.induct)
  case 1
  then show ?case by simp
next
  case (2 c cs)
  have nh: "\<not> ishex y" if "r = y # ys" for y ys using 2(5) that by auto
  show ?case
  proof (cases "prefix ''%2A'' (c # cs)")
    case True
    then obtain s where s: "c # cs = ''%2A'' @ s" "drop 2 cs = s"
      by (auto simp: prefix_def)
    have "unescape_keep_star s = None" using 2(4) unfolding s(1) by simp
    then have "unescape_keep_star (s @ r) = None" using 2(1)[OF True] s(2) 2(5) by simp
    then show ?thesis unfolding s(1) by simp
  next
    case np: False
    show ?thesis
    proof (cases "c = CHR ''%''")
      case False
      have "unescape_keep_star cs = None" using 2(4) np False by simp
      then have "unescape_keep_star (cs @ r) = None" using 2(3)[OF np False] 2(5) by simp
      then show ?thesis using False by simp
    next
      case True
      show ?thesis
      proof (cases cs)
        case Nil
        then show ?thesis using True nh by (cases r) (auto simp: ishex_def split: list.splits)
      next
        case c1: (Cons h1 cs1)
        show ?thesis
        proof (cases cs1)
          case Nil
          then show ?thesis using True c1 nh
            by (cases r) (auto simp: ishex_def split: list.splits)
        next
          case c2: (Cons h2 rest)
          show ?thesis
          proof (cases "ishex h1 \<and> ishex h2")
            case False
            then show ?thesis using True c1 c2 np by auto
          next
            case h: True
            have "unescape_keep_star rest = None" using 2(4) np True c1 c2 h by auto
            then have "unescape_keep_star (rest @ r) = None"
              using 2(2)[of h1 cs1 h2 rest] np True c1 c2 h 2(5) by simp
            then show ?thesis using True c1 c2 h np by auto
          qed
        qed
      qed
    qed
  qed
qed

lemma not_hex_percent: "\<not> ishex CHR ''%''"
  by (simp add: ishex_def)

lemma unescape_star_token:
  "unescape_keep_star (a @ ''%2A'' @ d) =
     (case unescape_keep_star a of
        None \<Rightarrow> None
      | Some a' \<Rightarrow> map_option (\<lambda>d'. a' @ ''%2A'' @ d') (unescape_keep_star d))"
proof (cases "unescape_keep_star a")
  case None
  then show ?thesis using unescape_None_append[of a "''%2A'' @ d"] by (simp add: not_hex_percent)
next
  case (Some a')
  then have "unescape_keep_star (a @ ''%2A'' @ d)
      = map_option ((@) a') (unescape_keep_star (''%2A'' @ d))"
    by (rule unescape_keep_star_append)
  then show ?thesis using Some by (cases "unescape_keep_star d") simp_all
qed

lemma unescape_24: "unescape_keep_star (''%24'' @ d) = map_option ((#) CHR ''$'') (unescape_keep_star d)"
  by (simp add: ishex_def unhex_def char_of_def bit_0)

lemma unescape_dollar_token:
  "unescape_keep_star (a @ ''%24'' @ d) =
     (case unescape_keep_star a of
        None \<Rightarrow> None
      | Some a' \<Rightarrow> map_option (\<lambda>d'. a' @ ''$'' @ d') (unescape_keep_star d))"
proof (cases "unescape_keep_star a")
  case None
  then show ?thesis using unescape_None_append[of a "''%24'' @ d"] by (simp add: not_hex_percent)
next
  case (Some a')
  then have "unescape_keep_star (a @ ''%24'' @ d)
      = map_option ((@) a') (unescape_keep_star (''%24'' @ d))"
    by (rule unescape_keep_star_append)
  then show ?thesis using Some unescape_24[of d] by (cases "unescape_keep_star d") simp_all
qed

lemma unescape_2524: "unescape_keep_star (''%2524'' @ d) = map_option ((@) ''%24'') (unescape_keep_star d)"
  by (cases "unescape_keep_star d") (simp_all add: ishex_def unhex_def char_of_def bit_0)

lemma unescape_end_2524:
  "unescape_keep_star (a @ ''%2524'') = map_option (\<lambda>a'. a' @ ''%24'') (unescape_keep_star a)"
proof (cases "unescape_keep_star a")
  case None
  then show ?thesis using unescape_None_append[of a "''%2524''"] by (simp add: not_hex_percent)
next
  case (Some a')
  then have "unescape_keep_star (a @ ''%2524'')
      = map_option ((@) a') (unescape_keep_star (''%2524''))"
    by (rule unescape_keep_star_append)
  then show ?thesis using Some unescape_2524[of "[]"] by simp
qed


lemma suffix_single: "suffix [x] s \<longleftrightarrow> s \<noteq> [] \<and> last s = x"
  by (metis append_butlast_last_id last_snoc snoc_suffix_snoc suffix_bot.extremum suffix_Nil
      suffix_def append_is_Nil_conv not_Cons_self2)

lemma unhex_lt: "unhex c < 16"
  by (auto simp: unhex_def Let_def)

lemma unhex_dollar:
  assumes "ishex h1" "ishex h2"
  shows "char_of (unhex h1 * 16 + unhex h2) = CHR ''$'' \<longleftrightarrow> h1 = CHR ''2'' \<and> h2 = CHR ''4''"
proof -
  have lt: "unhex h1 * 16 + unhex h2 < 256" using unhex_lt[of h1] unhex_lt[of h2] by simp
  have "char_of (unhex h1 * 16 + unhex h2) = CHR ''$'' \<longleftrightarrow> unhex h1 * 16 + unhex h2 = 36"
    using lt by (simp add: char_of_eq_iff take_bit_nat_eq_self)
  also have "\<dots> \<longleftrightarrow> unhex h1 = 2 \<and> unhex h2 = 4"
    using unhex_lt[of h1] unhex_lt[of h2] by arith
  also have "\<dots> \<longleftrightarrow> (of_char h1 :: nat) = 0x32 \<and> (of_char h2 :: nat) = 0x34"
    using assms by (auto simp: ishex_def unhex_def Let_def)
  also have "\<dots> \<longleftrightarrow> (of_char h1 :: nat) = of_char CHR ''2'' \<and> (of_char h2 :: nat) = of_char CHR ''4''"
    by simp
  also have "\<dots> \<longleftrightarrow> h1 = CHR ''2'' \<and> h2 = CHR ''4''"
    by (simp only: of_char_eq_iff)
  finally show ?thesis .
qed

lemma unescape_last:
  "unescape_keep_star p = Some d \<Longrightarrow>
   (d = [] \<longleftrightarrow> p = []) \<and> (suffix ''$'' d \<longleftrightarrow> suffix ''$'' p \<or> suffix ''%24'' p)"
proof (induction p arbitrary: d rule: unescape_keep_star.induct)
  case 1
  then show ?case by simp
next
  case (2 c cs)
  show ?case
  proof (cases "prefix ''%2A'' (c # cs)")
    case True
    then obtain s where s: "c # cs = ''%2A'' @ s" "drop 2 cs = s"
      by (auto simp: prefix_def)
    from 2(4) obtain d' where d': "unescape_keep_star s = Some d'" "d = ''%2A'' @ d'"
      unfolding s(1) by auto
    have "(d' = [] \<longleftrightarrow> s = []) \<and> (suffix ''$'' d' \<longleftrightarrow> suffix ''$'' s \<or> suffix ''%24'' s)"
      using 2(1)[OF True] s(2) d'(1) by simp
    then show ?thesis unfolding s(1) d'(2) by (auto simp: suffix_Cons)
  next
    case np: False
    show ?thesis
    proof (cases "c = CHR ''%''")
      case False
      from 2(4) obtain d' where d': "unescape_keep_star cs = Some d'" "d = c # d'"
        using np False by auto
      have "(d' = [] \<longleftrightarrow> cs = []) \<and> (suffix ''$'' d' \<longleftrightarrow> suffix ''$'' cs \<or> suffix ''%24'' cs)"
        using 2(3)[OF np False d'(1)] .
      then show ?thesis unfolding d'(2) using False by (auto simp: suffix_Cons)
    next
      case True
      from 2(4) obtain h1 h2 rest where c: "cs = h1 # h2 # rest" "ishex h1" "ishex h2"
        using np True by (auto split: list.splits if_splits)
      from 2(4) obtain d' where d': "unescape_keep_star rest = Some d'"
          "d = char_of (unhex h1 * 16 + unhex h2) # d'"
        using np True c by auto
      have IH: "(d' = [] \<longleftrightarrow> rest = [])
          \<and> (suffix ''$'' d' \<longleftrightarrow> suffix ''$'' rest \<or> suffix ''%24'' rest)"
        using 2(2)[of h1 "h2 # rest" h2 rest d'] np True c d'(1) by simp
      have nh: "h1 \<noteq> CHR ''%''" "h2 \<noteq> CHR ''%''" "h2 \<noteq> CHR ''$''"
        using c(2,3) by (auto simp: ishex_def)
      show ?thesis
        unfolding d'(2) True c(1) using IH nh unhex_dollar[OF c(2,3)]
        by (auto simp: suffix_Cons)
    qed
  qed
qed

lemma Replace_Nil_iff: "new \<noteq> [] \<Longrightarrow> strings_Replace p old new = [] \<longleftrightarrow> p = []"
  by (cases p) simp_all

lemma Replace_last:
  assumes "old \<noteq> []" "new \<noteq> []" "last old \<noteq> x" "last new \<noteq> x"
  shows "suffix [x] (strings_Replace p old new) \<longleftrightarrow> suffix [x] p"
proof (induction p rule: length_induct)
  case (1 p)
  show ?case
  proof (cases p)
    case Nil
    then show ?thesis by simp
  next
    case (Cons c cs)
    show ?thesis
    proof (cases "prefix old (c # cs)")
      case True
      then obtain z where z: "c # cs = old @ z" by (auto simp: prefix_def)
      have lz: "length z < length p" using z Cons assms(1) by (cases old) auto
      have A: "strings_Replace p old new = new @ strings_Replace z old new"
        unfolding Cons z using Replace_step_match[OF assms(1), of z new] by simp
      have IH: "suffix [x] (strings_Replace z old new) \<longleftrightarrow> suffix [x] z"
        using 1 lz by blast
      show ?thesis
        unfolding A unfolding Cons z
        using IH assms Replace_Nil_iff[OF assms(2), of z old]
        by (cases "z = []") (auto simp: suffix_single)
    next
      case False
      have A: "strings_Replace p old new = c # strings_Replace cs old new"
        unfolding Cons using Replace_step_plain[OF False] by simp
      have IH: "suffix [x] (strings_Replace cs old new) \<longleftrightarrow> suffix [x] cs"
        using 1 Cons by simp
      show ?thesis
        unfolding A unfolding Cons
        using IH Replace_Nil_iff[OF assms(2), of cs old]
        by (cases "cs = []") (auto simp: suffix_single)
    qed
  qed
qed

lemma restore_star_last: "suffix ''$'' (restore_star p) \<longleftrightarrow> suffix ''$'' p"
  unfolding restore_star_def
  using Replace_last[of "''%252A''" "''%2A''" "CHR ''$''" "strings_Replace p ''%2A'' ''%252A''"]
    Replace_last[of "''%2A''" "''%252A''" "CHR ''$''" p]
  by simp

lemma decode_path_restore:
  "decode_path p0 =
     (let p1 = (if isPattern p0 then replaceSuffix p0 ''%24'' ''%2524'' else p0) in
      case unescape_keep_star p1 of Some d \<Rightarrow> d | None \<Rightarrow> restore_star p1)"
  unfolding restore_star_def by (rule decode_path_keep_star)

lemma decode_path_anchor:
  assumes "isPattern p0"
  shows "strings_HasSuffix (decode_path p0) ''$'' \<longleftrightarrow> strings_HasSuffix p0 ''$''"
proof -
  let ?p1 = "replaceSuffix p0 ''%24'' ''%2524''"
  have p1: "\<not> suffix ''%24'' ?p1 \<and> (suffix ''$'' ?p1 \<longleftrightarrow> suffix ''$'' p0)"
  proof (cases "suffix ''%24'' p0")
    case True
    then obtain q where q: "p0 = q @ ''%24''" by (auto simp: suffix_def)
    show ?thesis unfolding q by (simp add: suffix_def)
  next
    case False
    then show ?thesis by (simp add: replaceSuffix_not)
  qed
  have "suffix ''$'' (decode_path p0) \<longleftrightarrow> suffix ''$'' ?p1"
  proof (cases "unescape_keep_star ?p1")
    case None
    then show ?thesis using assms by (simp add: decode_path_restore restore_star_last)
  next
    case (Some d)
    then show ?thesis using assms unescape_last[OF Some] p1 by (simp add: decode_path_restore)
  qed
  then show ?thesis using p1 by (simp add: HasSuffix_iff)
qed


lemma restore_star_Nil [simp]: "restore_star [] = []"
  by (simp add: restore_star_def)

lemma replaceSuffix_star_token:
  "replaceSuffix (a @ ''%2A'' @ d) ''%24'' ''%2524'' = a @ ''%2A'' @ replaceSuffix d ''%24'' ''%2524''"
proof (cases "suffix ''%24'' d")
  case True
  then obtain q where q: "d = q @ ''%24''" by (auto simp: suffix_def)
  show ?thesis
    unfolding q using replaceSuffix_append[of "a @ ''%2A'' @ q" "''%24''" "''%2524''"]
      replaceSuffix_append[of q "''%24''" "''%2524''"] by simp
next
  case False
  have "suffix ''%24'' (a @ ''%2A'' @ d) \<longleftrightarrow> suffix ''%24'' (''%2A'' @ d)"
    by (rule suffix_token_start) (simp_all add: token_start_def)
  then have "\<not> suffix ''%24'' (a @ ''%2A'' @ d)" using False by (auto simp: suffix_Cons)
  then show ?thesis using False by (simp add: replaceSuffix_not)
qed

lemma replaceSuffix_dollar_token:
  assumes "d \<noteq> []"
  shows "replaceSuffix (a @ ''%24'' @ d) ''%24'' ''%2524'' = a @ ''%24'' @ replaceSuffix d ''%24'' ''%2524''"
proof (cases "suffix ''%24'' d")
  case True
  then obtain q where q: "d = q @ ''%24''" by (auto simp: suffix_def)
  show ?thesis
    unfolding q using replaceSuffix_append[of "a @ ''%24'' @ q" "''%24''" "''%2524''"]
      replaceSuffix_append[of q "''%24''" "''%2524''"] by simp
next
  case False
  have "suffix ''%24'' (a @ ''%24'' @ d) \<longleftrightarrow> suffix ''%24'' (''%24'' @ d)"
    by (rule suffix_token_start) (simp_all add: token_start_def)
  then have "\<not> suffix ''%24'' (a @ ''%24'' @ d)" using False assms by (auto simp: suffix_Cons)
  then show ?thesis using False by (simp add: replaceSuffix_not)
qed

lemma decode_path_star_token:
  assumes "d1 = (if isPattern (a @ ''%2A'' @ d) then replaceSuffix d ''%24'' ''%2524'' else d)"
    and "ok = (decodes a \<and> decodes d1)"
  shows "decode_path (a @ ''%2A'' @ d) = decode_piece ok a @ ''%2A'' @ decode_piece ok d1"
proof -
  have p1: "(if isPattern (a @ ''%2A'' @ d)
             then replaceSuffix (a @ ''%2A'' @ d) ''%24'' ''%2524'' else a @ ''%2A'' @ d)
      = a @ ''%2A'' @ d1"
    using assms(1) replaceSuffix_star_token[of a d] by simp
  show ?thesis
    unfolding decode_path_restore p1 Let_def unescape_star_token restore_star_2A
    using assms(2)
    by (auto simp: decode_piece_def decodes_def split: option.splits)
qed

lemma decode_path_dollar_token:
  assumes "d \<noteq> []"
    and "d1 = (if isPattern (a @ ''%24'' @ d) then replaceSuffix d ''%24'' ''%2524'' else d)"
    and "ok = (decodes a \<and> decodes d1)"
  shows "decode_path (a @ ''%24'' @ d)
     = decode_piece ok a @ (if ok then ''$'' else ''%24'') @ decode_piece ok d1"
proof -
  have p1: "(if isPattern (a @ ''%24'' @ d)
             then replaceSuffix (a @ ''%24'' @ d) ''%24'' ''%2524'' else a @ ''%24'' @ d)
      = a @ ''%24'' @ d1"
    using assms(1,2) replaceSuffix_dollar_token[of d a] by simp
  show ?thesis
    unfolding decode_path_restore p1 Let_def unescape_dollar_token restore_star_24
    using assms(3)
    by (auto simp: decode_piece_def decodes_def split: option.splits)
qed

lemma decode_path_dollar_end:
  "decode_path (a @ ''%24'') =
     decode_piece (decodes a) a
       @ (if isPattern (a @ ''%24'') then (if decodes a then ''%24'' else ''%2524'')
          else (if decodes a then ''$'' else ''%24''))"
proof (cases "isPattern (a @ ''%24'')")
  case True
  have p1: "(if isPattern (a @ ''%24'')
             then replaceSuffix (a @ ''%24'') ''%24'' ''%2524'' else a @ ''%24'') = a @ ''%2524''"
    using True replaceSuffix_append[of a "''%24''" "''%2524''"] by simp
  show ?thesis
    unfolding decode_path_restore p1 Let_def unescape_end_2524 restore_star_2524
    using True
    by (auto simp: decode_piece_def decodes_def split: option.splits)
next
  case False
  have p1: "(if isPattern (a @ ''%24'')
             then replaceSuffix (a @ ''%24'') ''%24'' ''%2524'' else a @ ''%24'') = a @ ''%24''"
    using False by simp
  show ?thesis
    unfolding decode_path_restore p1 Let_def
    using False unescape_dollar_token[of a "[]"] restore_star_24[of a "[]"]
    by (auto simp: decode_piece_def decodes_def split: option.splits)
qed


lemma decode_piece_Nil_iff: "decode_piece ok s = [] \<longleftrightarrow> s = []"
proof (cases "unescape_keep_star s")
  case None
  then show ?thesis
    by (simp add: decode_piece_def restore_star_def Replace_Nil_iff)
next
  case (Some d)
  then show ?thesis using unescape_last[OF Some]
    by (simp add: decode_piece_def restore_star_def Replace_Nil_iff)
qed

lemma replaceSuffix_Nil_iff: "replaceSuffix d ''%24'' ''%2524'' = [] \<longleftrightarrow> d = []"
  by (auto simp: replaceSuffix_def strings_HasSuffix_def)


declare syntax_Parse.simps(2) [simp]
declare valid_utf8.simps(2) [simp]
declare lit_items.simps(2) [simp]
declare utf8_DecodeRuneInString.simps(2) [simp]

text \<open>
  Claim C3, amended. A pattern rule is stored with the items of its decoded path, a
  literal rule with the decoded path itself. In a pattern rule \<open>a%2Ad\<close> the escape is
  one literal asterisk, between the items of the piece before it and the pattern of the
  piece behind it, whether the rule decodes or not; a literal item matches exactly its
  own character, and a wildcard comes from a \<open>*\<close> of the decoded path only. In any
  rule \<open>a%24d\<close> with something behind the escape, the escape is the character \<open>$\<close>
  when the rule decodes, and the three characters \<open>%24\<close> when it does not; in a
  pattern these are literal items. A \<open>%24\<close> at the very end of a rule is a literal
  \<open>$\<close> as well when the rule decodes, and the text \<open>%24\<close> when it does not. The end
  anchor is there exactly when the pattern rule ends in an unescaped \<open>$\<close>, so
  \<open>%24\<close> never makes one. Nothing is said about \<open>%2A\<close> in a literal rule. The last
  three parts tie the notions to the code: \<open>addPathRule\<close> appends \<open>new_rules\<close>,
  \<open>decode_path\<close> is its treatment of the path, and \<open>unescape_keep_star\<close> is
  \<open>url.PathUnescape\<close> behind the replacement that protects \<open>%2A\<close>.
\<close>

theorem percent_escapes_in_rules:
  "new_rules L p0 b
     = (if isPattern p0 then
          (if valid_utf8 (decode_path p0) \<and> \<not> regexp_ErrLarge L (pattern_src (decode_path p0))
           then [\<lparr>isAllowed = b, path = [], pattern = Some (pattern_items (decode_path p0))\<rparr>]
           else [])
        else [\<lparr>isAllowed = b, path = decode_path p0, pattern = None\<rparr>])
   \<and> (isPattern (a @ ''%2A'' @ d) \<longrightarrow>
        (let d1 = replaceSuffix d ''%24'' ''%2524''; ok = (decodes a \<and> decodes d1) in
         pattern_items (decode_path (a @ ''%2A'' @ d))
           = lit_items (decode_piece ok a) @ RLit 0x2A # pattern_items (decode_piece ok d1)))
   \<and> (d \<noteq> [] \<longrightarrow>
        (let d1 = (if isPattern (a @ ''%24'' @ d) then replaceSuffix d ''%24'' ''%2524'' else d);
             ok = (decodes a \<and> decodes d1) in
         decode_path (a @ ''%24'' @ d)
           = decode_piece ok a @ (if ok then ''$'' else ''%24'') @ decode_piece ok d1
         \<and> (isPattern (a @ ''%24'' @ d) \<longrightarrow>
              pattern_items (decode_path (a @ ''%24'' @ d))
                = lit_items (decode_piece ok a)
                    @ (if ok then [RLit 0x24] else [RLit 0x25, RLit 0x32, RLit 0x34])
                    @ pattern_items (decode_piece ok d1))))
   \<and> decode_path (a @ ''%24'')
       = decode_piece (decodes a) a
           @ (if isPattern (a @ ''%24'') then (if decodes a then ''%24'' else ''%2524'')
              else (if decodes a then ''$'' else ''%24''))
   \<and> (isPattern (a @ ''%24'') \<longrightarrow>
        pattern_items (decode_path (a @ ''%24''))
          = lit_items (decode_piece (decodes a) a)
              @ (if decodes a then [RLit 0x24] else [RLit 0x25, RLit 0x32, RLit 0x34]))
   \<and> (isPattern p0 \<longrightarrow>
        (REndText \<in> set (pattern_items (decode_path p0)) \<longleftrightarrow> strings_HasSuffix p0 ''$''))
   \<and> (RAnyStar \<in> set (pattern_items d) \<longrightarrow> CHR ''*'' \<in> set d)
   \<and> (match_here (RLit r # is) t \<longleftrightarrow> (\<exists>t'. t = r # t' \<and> match_here is t'))
   \<and> fst (addPathRule L f ua p0 b)
       = put_group f ua ((get_group f ua)\<lparr>rules := rules (get_group f ua) @ new_rules L p0 b\<rparr>)
   \<and> decode_path p0
       = (let p1 = (if isPattern p0 then replaceSuffix p0 ''%24'' ''%2524'' else p0) in
          case url_PathUnescape (strings_Replace p1 ''%2A'' ''%252A'') of
            Some u \<Rightarrow> u
          | None \<Rightarrow> restore_star p1)
   \<and> unescape_keep_star s = url_PathUnescape (strings_Replace s ''%2A'' ''%252A'')"
proof -
  have n: "new_rules L p0 b
     = (if isPattern p0 then
          (if valid_utf8 (decode_path p0) \<and> \<not> regexp_ErrLarge L (pattern_src (decode_path p0))
           then [\<lparr>isAllowed = b, path = [], pattern = Some (pattern_items (decode_path p0))\<rparr>]
           else [])
        else [\<lparr>isAllowed = b, path = decode_path p0, pattern = None\<rparr>])"
    by (simp add: new_rules_pattern new_rules_literal)
  have s: "isPattern (a @ ''%2A'' @ d) \<longrightarrow>
        (let d1 = replaceSuffix d ''%24'' ''%2524''; ok = (decodes a \<and> decodes d1) in
         pattern_items (decode_path (a @ ''%2A'' @ d))
           = lit_items (decode_piece ok a) @ RLit 0x2A # pattern_items (decode_piece ok d1))"
  proof
    assume i: "isPattern (a @ ''%2A'' @ d)"
    let ?d1 = "replaceSuffix d ''%24'' ''%2524''"
    let ?ok = "decodes a \<and> decodes ?d1"
    have "decode_path (a @ ''%2A'' @ d) = decode_piece ?ok a @ ''%2A'' @ decode_piece ?ok ?d1"
      by (rule decode_path_star_token) (simp_all only: i if_True)
    then show "let d1 = replaceSuffix d ''%24'' ''%2524''; ok = (decodes a \<and> decodes d1) in
         pattern_items (decode_path (a @ ''%2A'' @ d))
           = lit_items (decode_piece ok a) @ RLit 0x2A # pattern_items (decode_piece ok d1)"
      unfolding Let_def by (simp only: pattern_items_star_token)
  qed
  have m: "d \<noteq> [] \<longrightarrow>
        (let d1 = (if isPattern (a @ ''%24'' @ d) then replaceSuffix d ''%24'' ''%2524'' else d);
             ok = (decodes a \<and> decodes d1) in
         decode_path (a @ ''%24'' @ d)
           = decode_piece ok a @ (if ok then ''$'' else ''%24'') @ decode_piece ok d1
         \<and> (isPattern (a @ ''%24'' @ d) \<longrightarrow>
              pattern_items (decode_path (a @ ''%24'' @ d))
                = lit_items (decode_piece ok a)
                    @ (if ok then [RLit 0x24] else [RLit 0x25, RLit 0x32, RLit 0x34])
                    @ pattern_items (decode_piece ok d1)))"
  proof
    assume ne: "d \<noteq> []"
    let ?d1 = "if isPattern (a @ ''%24'' @ d) then replaceSuffix d ''%24'' ''%2524'' else d"
    let ?ok = "decodes a \<and> decodes ?d1"
    have ne1: "decode_piece ?ok ?d1 \<noteq> []"
      using ne by (simp add: decode_piece_Nil_iff replaceSuffix_Nil_iff)
    have dp: "decode_path (a @ ''%24'' @ d)
        = decode_piece ?ok a @ (if ?ok then ''$'' else ''%24'') @ decode_piece ?ok ?d1"
      using ne by (rule decode_path_dollar_token) simp_all
    have "pattern_items (decode_path (a @ ''%24'' @ d))
                = lit_items (decode_piece ?ok a)
                    @ (if ?ok then [RLit 0x24] else [RLit 0x25, RLit 0x32, RLit 0x34])
                    @ pattern_items (decode_piece ?ok ?d1)"
    proof (cases ?ok)
      case True
      have "pattern_items (decode_piece ?ok a @ ''$'' @ decode_piece ?ok ?d1)
          = lit_items (decode_piece ?ok a) @ RLit 0x24 # pattern_items (decode_piece ?ok ?d1)"
        using ne1 by (rule pattern_items_dollar_token)
      then show ?thesis unfolding dp using True by (simp only: if_True) simp
    next
      case False
      have "pattern_items (decode_piece ?ok a @ ''%24'' @ decode_piece ?ok ?d1)
          = lit_items (decode_piece ?ok a)
              @ RLit 0x25 # RLit 0x32 # RLit 0x34 # pattern_items (decode_piece ?ok ?d1)"
        using ne1 by (rule pattern_items_24_token)
      then show ?thesis unfolding dp using False by (simp only: if_False) simp
    qed
    then show "let d1 = ?d1; ok = (decodes a \<and> decodes d1) in
         decode_path (a @ ''%24'' @ d)
           = decode_piece ok a @ (if ok then ''$'' else ''%24'') @ decode_piece ok d1
         \<and> (isPattern (a @ ''%24'' @ d) \<longrightarrow>
              pattern_items (decode_path (a @ ''%24'' @ d))
                = lit_items (decode_piece ok a)
                    @ (if ok then [RLit 0x24] else [RLit 0x25, RLit 0x32, RLit 0x34])
                    @ pattern_items (decode_piece ok d1))"
      unfolding Let_def using dp by blast
  qed
  have e: "decode_path (a @ ''%24'')
       = decode_piece (decodes a) a
           @ (if isPattern (a @ ''%24'') then (if decodes a then ''%24'' else ''%2524'')
              else (if decodes a then ''$'' else ''%24''))"
    by (rule decode_path_dollar_end)
  have ep: "isPattern (a @ ''%24'') \<longrightarrow>
        pattern_items (decode_path (a @ ''%24''))
          = lit_items (decode_piece (decodes a) a)
              @ (if decodes a then [RLit 0x24] else [RLit 0x25, RLit 0x32, RLit 0x34])"
    unfolding e by (simp add: pattern_items_24 pattern_items_2524)
  have an: "isPattern p0 \<longrightarrow>
        (REndText \<in> set (pattern_items (decode_path p0)) \<longleftrightarrow> strings_HasSuffix p0 ''$'')"
    by (simp add: pattern_items_anchor decode_path_anchor)
  have w: "RAnyStar \<in> set (pattern_items d) \<longrightarrow> CHR ''*'' \<in> set d"
    using pattern_items_wildcard by blast
  have mh: "match_here (RLit r # is) t \<longleftrightarrow> (\<exists>t'. t = r # t' \<and> match_here is t')"
    by (cases t) auto
  have ap: "fst (addPathRule L f ua p0 b)
       = put_group f ua ((get_group f ua)\<lparr>rules := rules (get_group f ua) @ new_rules L p0 b\<rparr>)"
    by (rule addPathRule_new_rules)
  have dp: "decode_path p0
       = (let p1 = (if isPattern p0 then replaceSuffix p0 ''%24'' ''%2524'' else p0) in
          case url_PathUnescape (strings_Replace p1 ''%2A'' ''%252A'') of
            Some u \<Rightarrow> u
          | None \<Rightarrow> restore_star p1)"
    unfolding decode_path_def restore_star_def Let_def by (rule refl)
  have us: "unescape_keep_star s = url_PathUnescape (strings_Replace s ''%2A'' ''%252A'')"
    by (rule PathUnescape_keep_star[symmetric])
  show ?thesis
    using n s m e ep an w mh ap dp us by (intro conjI)
qed

text \<open>Two instances from the tests of the package: \<open>/%20D/%2Atest$\<close> matches
  \<open>/ D/*test\<close> and not \<open>/ D/la/test\<close>, and \<open>/%20B/*test%24\<close> matches
  \<open>/ B/la/test$\<close> and not \<open>/ B/la/test\<close>.\<close>

theorem percent_escapes_in_rules_witness:
  "isPattern ''/%20D/%2Atest$''
   \<and> decodes ''/%20D/'' \<and> decodes ''test$''
   \<and> pattern_items (decode_path ''/%20D/%2Atest$'')
     = [RLit 47, RLit 32, RLit 68, RLit 47, RLit 42, RLit 116, RLit 101, RLit 115, RLit 116,
        REndText]
   \<and> new_rules sample_lib ''/%20D/%2Atest$'' False
     = [\<lparr>isAllowed = False, path = [],
         pattern = Some [RLit 47, RLit 32, RLit 68, RLit 47, RLit 42, RLit 116, RLit 101,
                         RLit 115, RLit 116, REndText]\<rparr>]
   \<and> regexp_MatchString [RLit 47, RLit 32, RLit 68, RLit 47, RLit 42, RLit 116, RLit 101,
                         RLit 115, RLit 116, REndText] ''/ D/*test''
   \<and> \<not> regexp_MatchString [RLit 47, RLit 32, RLit 68, RLit 47, RLit 42, RLit 116, RLit 101,
                         RLit 115, RLit 116, REndText] ''/ D/la/test''
   \<and> isPattern ''/%20B/*test%24'' \<and> decodes ''/%20B/*test''
   \<and> pattern_items (decode_path ''/%20B/*test%24'')
     = [RLit 47, RLit 32, RLit 66, RLit 47, RAnyStar, RLit 116, RLit 101, RLit 115, RLit 116,
        RLit 36]
   \<and> regexp_MatchString [RLit 47, RLit 32, RLit 66, RLit 47, RAnyStar, RLit 116, RLit 101,
                         RLit 115, RLit 116, RLit 36] ''/ B/la/test$''
   \<and> \<not> regexp_MatchString [RLit 47, RLit 32, RLit 66, RLit 47, RAnyStar, RLit 116, RLit 101,
                         RLit 115, RLit 116, RLit 36] ''/ B/la/test''"
proof -
  let ?p = "''/%20D/%2Atest$''"
  let ?re = "[RLit 47, RLit 32, RLit 68, RLit 47, RLit 42, RLit 116, RLit 101, RLit 115,
              RLit 116, REndText]"
  let ?q = "''/%20B/*test%24''"
  let ?rq = "[RLit 47, RLit 32, RLit 66, RLit 47, RAnyStar, RLit 116, RLit 101, RLit 115,
              RLit 116, RLit 36]"
  note t1 = percent_escapes_in_rules
    [where L = sample_lib and ?p0.0 = ?p and b = False and a = "''/%20D/''" and d = "''test$''"]
  note t2 = percent_escapes_in_rules [where a = "''/%20B/*test''"]
  have i: "isPattern ?p"
    by (simp add: isPattern_def strings_IndexRune_def strings_HasSuffix_def)
  have i': "isPattern (''/%20D/'' @ ''%2A'' @ ''test$'')" using i by simp
  have dc: "decodes ''/%20D/''" "decodes ''test$''"
    by (simp_all add: piece_defs)
  have pa: "lit_items (decode_piece True ''/%20D/'') = [RLit 47, RLit 32, RLit 68, RLit 47]"
    by (simp add: piece_defs seq_len_def)
  have pd: "pattern_items (decode_piece True ''test$'')
      = [RLit 116, RLit 101, RLit 115, RLit 116, REndText]"
    by (simp add: piece_defs pattern_items_def seq_len_def)
  have "let d1 = replaceSuffix ''test$'' ''%24'' ''%2524'';
            ok = (decodes ''/%20D/'' \<and> decodes d1) in
         pattern_items (decode_path (''/%20D/'' @ ''%2A'' @ ''test$''))
           = lit_items (decode_piece ok ''/%20D/'') @ RLit 0x2A # pattern_items (decode_piece ok d1)"
    using t1[THEN conjunct2, THEN conjunct1, THEN mp, OF i'] .
  moreover have "replaceSuffix ''test$'' ''%24'' ''%2524'' = ''test$''"
    by (simp add: replaceSuffix_def strings_HasSuffix_def)
  ultimately have "pattern_items (decode_path (''/%20D/'' @ ''%2A'' @ ''test$''))
      = lit_items (decode_piece True ''/%20D/'') @ RLit 0x2A # pattern_items (decode_piece True ''test$'')"
    using dc by (simp only: Let_def simp_thms)
  then have pi: "pattern_items (decode_path ?p) = ?re"
    unfolding pa pd by simp
  have d: "decode_path ?p = ''/ D/%2Atest$''"
    by (simp add: decode_path_def isPattern_def strings_IndexRune_def strings_HasSuffix_def
          replaceSuffix_def ishex_def unhex_def char_of_def bit_0)
  have v: "valid_utf8 (decode_path ?p)"
    unfolding d by (simp add: seq_len_def RuneError_def)
  have e: "\<not> regexp_ErrLarge sample_lib (pattern_src (decode_path ?p))"
    unfolding d
    by (simp add: pattern_src_def regexp_QuoteMeta_def special_def replaceSuffix_def
          strings_HasSuffix_def lib_defs)
  have n: "new_rules sample_lib ?p False
      = [\<lparr>isAllowed = False, path = [], pattern = Some ?re\<rparr>]"
    using t1[THEN conjunct1] i v e pi by simp
  have m: "regexp_MatchString ?re ''/ D/*test''" "\<not> regexp_MatchString ?re ''/ D/la/test''"
    by (simp_all add: regexp_MatchString_def seq_len_def)
  have j: "isPattern ?q"
    by (simp add: isPattern_def strings_IndexRune_def strings_HasSuffix_def)
  have j': "isPattern (''/%20B/*test'' @ ''%24'')" using j by simp
  have dq: "decodes ''/%20B/*test''"
    by (simp add: piece_defs)
  have qa: "lit_items (decode_piece True ''/%20B/*test'')
      = [RLit 47, RLit 32, RLit 66, RLit 47, RAnyStar, RLit 116, RLit 101, RLit 115, RLit 116]"
    by (simp add: piece_defs seq_len_def)
  have "pattern_items (decode_path (''/%20B/*test'' @ ''%24''))
          = lit_items (decode_piece (decodes ''/%20B/*test'') ''/%20B/*test'')
              @ (if decodes ''/%20B/*test'' then [RLit 0x24]
                 else [RLit 0x25, RLit 0x32, RLit 0x34])"
    using t2[THEN conjunct2, THEN conjunct2, THEN conjunct2, THEN conjunct2, THEN conjunct1,
        THEN mp, OF j'] .
  then have "pattern_items (decode_path (''/%20B/*test'' @ ''%24''))
          = lit_items (decode_piece True ''/%20B/*test'') @ [RLit 0x24]"
    using dq by (simp only: simp_thms if_True)
  then have qi: "pattern_items (decode_path ?q) = ?rq"
    unfolding qa by simp
  have mq: "regexp_MatchString ?rq ''/ B/la/test$''" "\<not> regexp_MatchString ?rq ''/ B/la/test''"
    by (simp_all add: regexp_MatchString_def seq_len_def)
  show ?thesis
    using i dc pi n m j dq qi mq by (intro conjI)
qed


text \<open>Claim C3 as stated fails: the rule \<open>/%B/*test%24\<close> does not percent-decode
  (\<open>%B/\<close> is no escape), so its \<open>%24\<close> is not decoded and matches the text
  \<open>%24\<close>, not the character \<open>$\<close>. The test
  \<open>invalidUrlEncodingsShouldBeTreatedAsUnencoded\<close> of the package expects just this.\<close>

theorem undecodable_rule_dollar_counterexample:
  "Parse sample_lib ''User-agent: *\<newline>Disallow: /%B/*test%24''
       ''http://www.example.com/robots.txt''
     = Inr (parse_lines sample_lib example_url [''User-agent: *'', ''Disallow: /%B/*test%24''])
   \<and> groups (parse_lines sample_lib example_url [''User-agent: *'', ''Disallow: /%B/*test%24''])
       ''*''
     = Some \<lparr>rules = [\<lparr>isAllowed = False, path = [],
           pattern = Some [RLit 47, RLit 37, RLit 66, RLit 47, RAnyStar, RLit 116, RLit 101,
                           RLit 115, RLit 116, RLit 37, RLit 50, RLit 52]\<rparr>],
         crawlDelay = 0\<rparr>
   \<and> group_isAllowed
        \<lparr>rules = [\<lparr>isAllowed = False, path = [],
           pattern = Some [RLit 47, RLit 37, RLit 66, RLit 47, RAnyStar, RLit 116, RLit 101,
                           RLit 115, RLit 116, RLit 37, RLit 50, RLit 52]\<rparr>],
         crawlDelay = 0\<rparr> ''*'' ''/%B/test$''
   \<and> group_isAllowed
        \<lparr>rules = [\<lparr>isAllowed = False, path = [],
           pattern = Some [RLit 47, RLit 37, RLit 66, RLit 47, RAnyStar, RLit 116, RLit 101,
                           RLit 115, RLit 116, RLit 37, RLit 50, RLit 52]\<rparr>],
         crawlDelay = 0\<rparr> ''*'' ''/%B/test''
   \<and> \<not> group_isAllowed
        \<lparr>rules = [\<lparr>isAllowed = False, path = [],
           pattern = Some [RLit 47, RLit 37, RLit 66, RLit 47, RAnyStar, RLit 116, RLit 101,
                           RLit 115, RLit 116, RLit 37, RLit 50, RLit 52]\<rparr>],
         crawlDelay = 0\<rparr> ''*'' ''/%B/test%24''"
proof -
  let ?g = "\<lparr>rules = [\<lparr>isAllowed = False, path = [],
           pattern = Some [RLit 47, RLit 37, RLit 66, RLit 47, RAnyStar, RLit 116, RLit 101,
                           RLit 115, RLit 116, RLit 37, RLit 50, RLit 52]\<rparr>],
         crawlDelay = 0\<rparr>"
  have p: "Parse sample_lib ''User-agent: *\<newline>Disallow: /%B/*test%24''
       ''http://www.example.com/robots.txt''
     = Inr (parse_lines sample_lib example_url [''User-agent: *'', ''Disallow: /%B/*test%24''])"
    by (simp add: Parse_def example_url_normalized)
  have g: "groups (parse_lines sample_lib example_url
       [''User-agent: *'', ''Disallow: /%B/*test%24'']) ''*'' = Some ?g"
    by (simp add: parse_lines_def parse_defs lib_defs parse_init_def Let_def
          compilePattern_def regexp_Compile_def regexp_QuoteMeta_def special_def seq_len_def
          RuneError_def re_cons_def isalnum_def)
  have m: "group_isAllowed ?g ''*'' ''/%B/test$''" "group_isAllowed ?g ''*'' ''/%B/test''"
    "\<not> group_isAllowed ?g ''*'' ''/%B/test%24''"
    by (simp_all add: group_isAllowed_def regexp_MatchString_def seq_len_def)
  show ?thesis using p g m by (intro conjI)
qed

text \<open>A literal rule keeps the text \<open>%2A\<close>: \<open>addPathRule\<close> protects the escape
  from decoding for every rule, and only \<open>compilePattern\<close> turns it into an asterisk.
  \<open>Disallow: /a%2Ab\<close> stores the path \<open>/a%2Ab\<close>, which is no prefix of
  \<open>/a*b\<close>.\<close>

lemma literal_rule_escaped_star:
  "Parse sample_lib ''User-agent: *\<newline>Disallow: /a%2Ab'' ''http://www.example.com/robots.txt''
     = Inr (parse_lines sample_lib example_url [''User-agent: *'', ''Disallow: /a%2Ab''])
   \<and> groups (parse_lines sample_lib example_url [''User-agent: *'', ''Disallow: /a%2Ab'']) ''*''
     = Some \<lparr>rules = [\<lparr>isAllowed = False, path = ''/a%2Ab'', pattern = None\<rparr>], crawlDelay = 0\<rparr>
   \<and> IsAllowed sample_lib
        (parse_lines sample_lib example_url [''User-agent: *'', ''Disallow: /a%2Ab''])
        ''*'' ''http://www.example.com/a*b'' = Inr True"
proof -
  let ?r = "parse_lines sample_lib example_url [''User-agent: *'', ''Disallow: /a%2Ab'']"
  have p: "Parse sample_lib ''User-agent: *\<newline>Disallow: /a%2Ab''
      ''http://www.example.com/robots.txt'' = Inr ?r"
    by (simp add: Parse_def example_url_normalized)
  have g: "groups ?r ''*''
     = Some \<lparr>rules = [\<lparr>isAllowed = False, path = ''/a%2Ab'', pattern = None\<rparr>], crawlDelay = 0\<rparr>"
    by (simp add: parse_lines_def parse_defs lib_defs parse_init_def Let_def)
  have n: "normaliseUserAgent sample_lib ''*'' = ''*''"
    by (simp add: normaliseUserAgent_def strings_IndexRune_def lib_defs)
  have q: "parseAndNormalizeURL sample_lib ''http://www.example.com/a*b''
      = Inr \<lparr>Scheme = ''http'', Host = ''www.example.com'', Path = ''/a*b''\<rparr>"
    by (simp add: parseAndNormalizeURL_def lib_defs)
  have u: "Scheme (url ?r) = ''http''" "Host (url ?r) = ''www.example.com''"
    by (simp_all add: url_parse_lines example_url_def)
  have "IsAllowed sample_lib ?r ''*'' ''http://www.example.com/a*b'' = Inr True"
    by (simp add: IsAllowed_def q n g u group_isAllowed_def strings_HasPrefix_def)
  then show ?thesis using p g by blast
qed

end
